theory Spec2Isabelle
  imports Main "HOL-Library.Word"
begin

section \<open>JavaScript strings\<close>

text \<open>
  A JavaScript string is a sequence of UTF-16 code units; \<open>length\<close> counts code units and
  \<open>substring\<close> cuts between them.  \<open>String.prototype.trim\<close> removes the ECMAScript
  WhiteSpace and LineTerminator code points from both ends; all of them are single code units.
\<close>

type_synonym jschar = "16 word"
type_synonym jsstring = "jschar list"

definition utf16 :: "string \<Rightarrow> jsstring" where
  "utf16 s = map (\<lambda>c. of_nat (of_char c)) s"

definition isWhiteSpace :: "jschar \<Rightarrow> bool" where
  "isWhiteSpace c =
     (c = 0x9 \<or> c = 0xA \<or> c = 0xB \<or> c = 0xC \<or> c = 0xD \<or> c = 0x20 \<or> c = 0xA0 \<or>
      c = 0x1680 \<or> (0x2000 \<le> c \<and> c \<le> 0x200A) \<or> c = 0x2028 \<or> c = 0x2029 \<or>
      c = 0x202F \<or> c = 0x205F \<or> c = 0x3000 \<or> c = 0xFEFF)"

definition trim :: "jsstring \<Rightarrow> jsstring" where
  "trim s = rev (dropWhile isWhiteSpace (rev (dropWhile isWhiteSpace s)))"

text \<open>\<open>s.substring(0, n)\<close>\<close>

definition substring0 :: "nat \<Rightarrow> jsstring \<Rightarrow> jsstring" where
  "substring0 n s = take n s"

section \<open>The document tree\<close>

text \<open>
  An element carries its identity (\<open>ident\<close>, standing for the object reference the script
  holds), its local name, its class list (the tokens of the \<open>class\<close> attribute, in order) and
  its other attributes.  The inline style property \<open>transform\<close> is kept under the attribute
  key \<open>style.transform\<close>.  A node is a text node or an element with its children in document
  order.  Comment nodes carry no text content and match no selector; they are left out.
\<close>

record edata =
  ident :: nat
  tag :: string
  classes :: "string list"
  attrs :: "(string \<times> string) list"

datatype node = Text jsstring | Elem edata "node list"

text \<open>The inclusive element descendants of a node, in document (pre-)order.\<close>

fun elems :: "node \<Rightarrow> (edata \<times> node list) list" where
  "elems (Text s) = []"
| "elems (Elem e cs) = (e, cs) # concat (map elems cs)"

definition descendants :: "node list \<Rightarrow> (edata \<times> node list) list" where
  "descendants cs = concat (map elems cs)"

definition ids :: "node \<Rightarrow> nat list" where
  "ids t = map (\<lambda>(e, cs). ident e) (elems t)"

fun textContent :: "node \<Rightarrow> jsstring" where
  "textContent (Text s) = s"
| "textContent (Elem e cs) = concat (map textContent cs)"

text \<open>
  \<open>ancestry m t\<close>: the element \<open>m\<close> and its ancestors inside the tree \<open>t\<close>, nearest first
  (empty when \<open>m\<close> does not occur in \<open>t\<close>).
\<close>

fun ancestry :: "nat \<Rightarrow> node \<Rightarrow> edata list" where
  "ancestry m (Text s) = []"
| "ancestry m (Elem e cs) =
     (if ident e = m then [e]
      else if concat (map (ancestry m) cs) = [] then []
      else concat (map (ancestry m) cs) @ [e])"

text \<open>\<open>upd i f t\<close> replaces the element with identity \<open>i\<close> by \<open>f\<close> of its data and children.\<close>

fun upd :: "nat \<Rightarrow> (edata \<Rightarrow> node list \<Rightarrow> node) \<Rightarrow> node \<Rightarrow> node" where
  "upd i f (Text s) = Text s"
| "upd i f (Elem e cs) = (if ident e = i then f e cs else Elem e (map (upd i f) cs))"

subsection \<open>Selectors\<close>

text \<open>
  The selectors of the program are comma-separated lists of compound selectors built from a
  type selector, \<open>.c\<close>, \<open>[class*="s"]\<close> and \<open>[a="v"]\<close> (\<open>#i\<close> is \<open>[id="i"]\<close>).  None of the
  substrings searched for contains white space, so a match of \<open>[class*="s"]\<close> in the class
  attribute lies inside one class token.
\<close>

datatype simple_selector =
  TagIs string | HasClass string | ClassContains string | AttrIs string string

type_synonym selector = "simple_selector list list"

fun starts_with :: "string \<Rightarrow> string \<Rightarrow> bool" where
  "starts_with [] ys = True"
| "starts_with (x # xs) [] = False"
| "starts_with (x # xs) (y # ys) = (x = y \<and> starts_with xs ys)"

fun contains_substring :: "string \<Rightarrow> string \<Rightarrow> bool" where
  "contains_substring [] s = (s = [])"
| "contains_substring (y # ys) s = (starts_with s (y # ys) \<or> contains_substring ys s)"

definition getAttribute :: "string \<Rightarrow> edata \<Rightarrow> string option" where
  "getAttribute k e = map_of (attrs e) k"

fun matches_simple :: "simple_selector \<Rightarrow> edata \<Rightarrow> bool" where
  "matches_simple (TagIs t) e = (tag e = t)"
| "matches_simple (HasClass c) e = (c \<in> set (classes e))"
| "matches_simple (ClassContains s) e = list_ex (\<lambda>c. contains_substring c s) (classes e)"
| "matches_simple (AttrIs k v) e = (getAttribute k e = Some v)"

definition matches :: "selector \<Rightarrow> edata \<Rightarrow> bool" where
  "matches sel e = list_ex (list_all (\<lambda>s. matches_simple s e)) sel"

text \<open>\<open>root.querySelectorAll(sel)\<close> and \<open>root.querySelector(sel)\<close> over given children.\<close>

definition querySelectorAll :: "selector \<Rightarrow> node list \<Rightarrow> (edata \<times> node list) list" where
  "querySelectorAll sel cs = filter (\<lambda>(e, c). matches sel e) (descendants cs)"

definition querySelector :: "selector \<Rightarrow> node list \<Rightarrow> (edata \<times> node list) option" where
  "querySelector sel cs = List.find (\<lambda>(e, c). matches sel e) (descendants cs)"

definition closest_in :: "selector \<Rightarrow> nat \<Rightarrow> node \<Rightarrow> edata option" where
  "closest_in sel m t = List.find (matches sel) (ancestry m t)"

subsection \<open>The page: the document and the subtrees outside it\<close>

text \<open>
  \<open>document\<close> is the document element; its parent node is the Document itself.  \<open>detached\<close>
  holds the roots of subtrees that are not connected to the document (their roots have no
  parent node).  \<open>isAllCollapsed\<close> is the script's global \<open>state\<close> object.
\<close>

record state =
  document :: node
  detached :: "node list"
  isAllCollapsed :: bool

datatype parent_node = NoParent | DocumentNode | ParentElement nat

datatype dom_exception = HierarchyRequestError

text \<open>A call either returns or throws; both leave a page behind.\<close>

datatype outcome = Returned state | Thrown dom_exception state

fun page :: "outcome \<Rightarrow> state" where
  "page (Returned st) = st"
| "page (Thrown x st) = st"

definition trees :: "state \<Rightarrow> node list" where
  "trees st = document st # detached st"

definition all_ids :: "state \<Rightarrow> nat list" where
  "all_ids st = concat (map ids (trees st))"

text \<open>The identity given to the next created element: one not in use anywhere.\<close>

definition fresh :: "state \<Rightarrow> nat" where
  "fresh st = Suc (fold max (all_ids st) 0)"

definition subtree :: "nat \<Rightarrow> state \<Rightarrow> (edata \<times> node list) option" where
  "subtree m st = List.find (\<lambda>(e, cs). ident e = m) (descendants (trees st))"

definition ancestors :: "nat \<Rightarrow> state \<Rightarrow> edata list" where
  "ancestors m st = concat (map (ancestry m) (trees st))"

definition closest :: "selector \<Rightarrow> nat \<Rightarrow> state \<Rightarrow> edata option" where
  "closest sel m st = List.find (matches sel) (ancestors m st)"

definition parentNode :: "nat \<Rightarrow> state \<Rightarrow> parent_node" where
  "parentNode m st =
     (case ancestors m st of
        e # p # ps \<Rightarrow> ParentElement (ident p)
      | _ \<Rightarrow> (case document st of
                Elem r cs \<Rightarrow> if ident r = m then DocumentNode else NoParent
              | Text s \<Rightarrow> NoParent))"

definition update :: "nat \<Rightarrow> (edata \<Rightarrow> node list \<Rightarrow> node) \<Rightarrow> state \<Rightarrow> state" where
  "update i f st = st\<lparr>document := upd i f (document st), detached := map (upd i f) (detached st)\<rparr>"

subsection \<open>DOM mutations\<close>

definition is_node :: "nat \<Rightarrow> node \<Rightarrow> bool" where
  "is_node m n = (case n of Elem e cs \<Rightarrow> ident e = m | Text s \<Rightarrow> False)"

text \<open>
  \<open>p.insertBefore(new, ref)\<close> for a child \<open>ref\<close> of \<open>p\<close>.  (The DOM raises NotFoundError
  when \<open>ref\<close> is not a child of \<open>p\<close>; the program only passes \<open>p = ref.parentNode\<close>.)
\<close>

fun insert_before :: "node \<Rightarrow> nat \<Rightarrow> node list \<Rightarrow> node list" where
  "insert_before new ref [] = []"
| "insert_before new ref (c # cs) =
     (if is_node ref c then new # c # cs else c # insert_before new ref cs)"

definition insertBefore :: "nat \<Rightarrow> node \<Rightarrow> nat \<Rightarrow> state \<Rightarrow> state" where
  "insertBefore p new ref = update p (\<lambda>e cs. Elem e (insert_before new ref cs))"

text \<open>\<open>p.appendChild(new)\<close> for a node \<open>new\<close> that has no parent.\<close>

definition appendChild :: "nat \<Rightarrow> node \<Rightarrow> state \<Rightarrow> state" where
  "appendChild p new = update p (\<lambda>e cs. Elem e (cs @ [new]))"

text \<open>Removing the child \<open>m\<close> from its parent \<open>p\<close> (the first half of moving a node).\<close>

definition removeChild :: "nat \<Rightarrow> nat \<Rightarrow> state \<Rightarrow> state" where
  "removeChild p m = update p (\<lambda>e cs. Elem e (filter (\<lambda>c. \<not> is_node m c) cs))"

text \<open>\<open>x.textContent = s\<close>: the children are replaced by one text node, or none for \<open>""\<close>.\<close>

definition text_children :: "jsstring \<Rightarrow> node list" where
  "text_children s = (if s = [] then [] else [Text s])"

definition setTextContent :: "nat \<Rightarrow> jsstring \<Rightarrow> state \<Rightarrow> state" where
  "setTextContent m s = update m (\<lambda>e cs. Elem e (text_children s))"

definition classList_add :: "string \<Rightarrow> edata \<Rightarrow> edata" where
  "classList_add c e = (if c \<in> set (classes e) then e else e\<lparr>classes := classes e @ [c]\<rparr>)"

definition classList_remove :: "string \<Rightarrow> edata \<Rightarrow> edata" where
  "classList_remove c e = e\<lparr>classes := filter (\<lambda>x. x \<noteq> c) (classes e)\<rparr>"

fun put_attr :: "string \<Rightarrow> string \<Rightarrow> (string \<times> string) list \<Rightarrow> (string \<times> string) list" where
  "put_attr k v [] = [(k, v)]"
| "put_attr k v ((k', v') # kvs) =
     (if k' = k then (k, v) # kvs else (k', v') # put_attr k v kvs)"

definition setAttribute :: "string \<Rightarrow> string \<Rightarrow> edata \<Rightarrow> edata" where
  "setAttribute k v e = e\<lparr>attrs := put_attr k v (attrs e)\<rparr>"

definition modify :: "nat \<Rightarrow> (edata \<Rightarrow> edata) \<Rightarrow> state \<Rightarrow> state" where
  "modify m g = update m (\<lambda>e cs. Elem (g e) cs)"

section \<open>The program\<close>

subsection \<open>Markup created by the script\<close>

text \<open>
  The icon both buttons receive through \<open>innerHTML\<close>: an \<open>svg\<close> element holding one \<open>path\<close>,
  with the white space of the template literal around them as text nodes.
\<close>

definition chevron :: "nat \<Rightarrow> node" where
  "chevron n =
     Elem \<lparr>ident = n, tag = ''svg'', classes = [],
           attrs = [(''viewBox'', ''0 0 16 16''), (''fill'', ''none''),
                    (''xmlns'', ''http://www.w3.org/2000/svg'')]\<rparr>
       [Text (utf16 [CHR 0x0A, CHR '' '', CHR '' '', CHR '' '', CHR '' '', CHR '' '', CHR '' '']),
        Elem \<lparr>ident = n + 1, tag = ''path'', classes = [],
              attrs = [(''d'', ''M3 6L8 11L13 6''), (''stroke'', ''currentColor''),
                       (''stroke-width'', ''2''), (''stroke-linecap'', ''round''),
                       (''stroke-linejoin'', ''round'')]\<rparr> [],
        Text (utf16 [CHR 0x0A, CHR '' '', CHR '' '', CHR '' '', CHR '' ''])]"

definition wrapperSel :: selector where "wrapperSel = [[HasClass ''message-wrapper'']]"
definition contentSel :: selector where "contentSel = [[HasClass ''message-content'']]"
definition toggleSel :: selector where "toggleSel = [[HasClass ''collapse-toggle'']]"
definition userSel :: selector where "userSel = [[ClassContains ''user'']]"
definition assistantSel :: selector where "assistantSel = [[ClassContains ''assistant'']]"
definition responseSel :: selector where
  "responseSel = [[AttrIs ''id'' ''response-content-container'']]"
definition structureSel :: selector where
  "structureSel = [[TagIs ''p''], [TagIs ''pre''], [TagIs ''code''], [TagIs ''ul''],
                   [TagIs ''ol''], [TagIs ''h1''], [TagIs ''h2''], [TagIs ''h3''],
                   [TagIs ''span'']]"

text \<open>
  \<open>createCollapseColumn\<close>, creating its elements from identity \<open>n\<close> on: the column, the toggle
  button (initially \<open>aria-expanded="true"\<close>), its icon, and the vertical line.
\<close>

definition createCollapseColumn :: "nat \<Rightarrow> node" where
  "createCollapseColumn n =
     Elem \<lparr>ident = n, tag = ''div'', classes = [''collapse-column''], attrs = []\<rparr>
       [Elem \<lparr>ident = n + 1, tag = ''button'', classes = [''collapse-toggle''],
              attrs = [(''aria-expanded'', ''true''), (''aria-label'', ''Toggle message'')]\<rparr>
          [Text (utf16 [CHR 0x0A, CHR '' '', CHR '' '', CHR '' '', CHR '' '']),
           chevron (n + 2),
           Text (utf16 [CHR 0x0A, CHR '' '', CHR '' ''])],
        Elem \<lparr>ident = n + 4, tag = ''div'', classes = [''collapse-line''], attrs = []\<rparr> []]"

text \<open>
  The click handler \<open>handleToggle\<close> that \<open>createCollapseColumn\<close> attaches to the toggle and to
  the line; \<open>column\<close> and \<open>toggle\<close> are the two elements its closure captures.
\<close>

definition setCollapsed :: "bool \<Rightarrow> nat \<Rightarrow> nat \<Rightarrow> state \<Rightarrow> state" where
  "setCollapsed b content toggle st =
     (if b then
        modify toggle (setAttribute ''aria-expanded'' ''false'')
          (modify toggle (classList_add ''collapsed'')
            (modify content (classList_add ''collapsed'') st))
      else
        modify toggle (setAttribute ''aria-expanded'' ''true'')
          (modify toggle (classList_remove ''collapsed'')
            (modify content (classList_remove ''collapsed'') st)))"

definition handleToggle :: "nat \<Rightarrow> nat \<Rightarrow> state \<Rightarrow> state" where
  "handleToggle column toggle st =
     (case closest wrapperSel column st of
        None \<Rightarrow> st
      | Some wrapper \<Rightarrow>
          (case subtree (ident wrapper) st of
             None \<Rightarrow> st
           | Some (w, wcs) \<Rightarrow>
               (case querySelector contentSel wcs of
                  None \<Rightarrow> st
                | Some (content, ccs) \<Rightarrow>
                    let isCollapsed = (''collapsed'' \<in> set (classes content))
                    in setCollapsed (\<not> isCollapsed) (ident content) toggle st)))"

subsection \<open>\<open>addToggleToMessage\<close>\<close>

definition ellipsize :: "jsstring \<Rightarrow> jsstring" where
  "ellipsize s = substring0 150 s @ (if length s > 150 then utf16 ''...'' else [])"

definition addToggleToMessage :: "nat \<Rightarrow> state \<Rightarrow> outcome" where
  "addToggleToMessage messageElement st =
     (case subtree messageElement st of
        None \<Rightarrow> Returned st
      | Some (me, mcs) \<Rightarrow>
          if closest wrapperSel messageElement st \<noteq> None then Returned st
          else
            let textLength = length (trim (textContent (Elem me mcs))) in
            if textLength < 20 then Returned st
            else
              let n = fresh st;
                  isUser = (''user'' \<in> set (classes me) \<or> closest userSel messageElement st \<noteq> None);
                  isAssistant =
                    (''assistant'' \<in> set (classes me) \<or>
                     closest assistantSel messageElement st \<noteq> None);
                  wrapper =
                    Elem \<lparr>ident = n, tag = ''div'',
                          classes = [''message-wrapper''] @
                                    (if isUser then [''user-message''] else []) @
                                    (if isAssistant then [''assistant-message''] else []),
                          attrs = []\<rparr> []
              in
              (case parentNode messageElement st of
                 NoParent \<Rightarrow> Returned st
               | DocumentNode \<Rightarrow> Thrown HierarchyRequestError st
               | ParentElement parent \<Rightarrow>
                   let st1 = insertBefore parent wrapper messageElement st;
                       collapseColumn = createCollapseColumn (n + 1);
                       st2 = appendChild n collapseColumn st1;
                       preview =
                         Elem \<lparr>ident = n + 7, tag = ''div'', classes = [''message-preview''],
                               attrs = []\<rparr> [];
                       st3 = removeChild parent messageElement st2;
                       contentWrapper =
                         Elem \<lparr>ident = n + 8, tag = ''div'', classes = [''message-content''],
                               attrs = []\<rparr> [Elem me mcs];
                       contentContainer =
                         Elem \<lparr>ident = n + 6, tag = ''div'',
                               classes = [''message-content-container''], attrs = []\<rparr>
                           [preview, contentWrapper];
                       st4 = appendChild n contentContainer st3;
                       textContent' =
                         (if isUser then trim (textContent (Elem me mcs))
                          else (case querySelector responseSel [preview, contentWrapper] of
                                  None \<Rightarrow> []
                                | Some (r, rcs) \<Rightarrow> trim (textContent (Elem r rcs))))
                   in Returned (setTextContent (n + 7) (ellipsize textContent') st4)))"

subsection \<open>\<open>processMessages\<close>\<close>

definition selectors :: "selector list" where
  "selectors =
     [[[HasClass ''prose'']],
      [[ClassContains ''Message'']],
      [[HasClass ''message'']],
      [[HasClass ''chat-message'']],
      [[TagIs ''div'', ClassContains ''message-'']],
      [[AttrIs ''role'' ''article'']],
      [[AttrIs ''role'' ''row'']],
      [[TagIs ''div'', ClassContains ''whitespace-pre-wrap'']],
      [[TagIs ''div'', ClassContains ''markdown'']]]"

text \<open>\<open>Set.prototype.add\<close> on a set kept in insertion order.\<close>

definition set_add :: "nat \<Rightarrow> nat list \<Rightarrow> nat list" where
  "set_add x s = (if x \<in> set s then s else s @ [x])"

definition foundMessages :: "state \<Rightarrow> nat list" where
  "foundMessages st =
     fold (\<lambda>selector found.
             fold (\<lambda>(e, cs). set_add (ident e)) (querySelectorAll selector [document st]) found)
       selectors []"

text \<open>\<open>forEach\<close>: an exception thrown by the callback ends the iteration.\<close>

fun forEach :: "(nat \<Rightarrow> state \<Rightarrow> outcome) \<Rightarrow> nat list \<Rightarrow> state \<Rightarrow> outcome" where
  "forEach f [] st = Returned st"
| "forEach f (x # xs) st =
     (case f x st of Returned st' \<Rightarrow> forEach f xs st' | Thrown ex st' \<Rightarrow> Thrown ex st')"

text \<open>The callback that \<open>processMessages\<close> runs on each found element.\<close>

definition process_message :: "nat \<Rightarrow> state \<Rightarrow> outcome" where
  "process_message msg st =
     (case subtree msg st of
        None \<Rightarrow> Returned st
      | Some (me, mcs) \<Rightarrow>
          if closest wrapperSel msg st \<noteq> None then Returned st
          else
            let textLength = length (trim (textContent (Elem me mcs))) in
            if textLength < 20 then Returned st
            else
              let hasTextContent = (querySelector structureSel mcs \<noteq> None) in
              if hasTextContent \<or> textLength > 50 then addToggleToMessage msg st
              else Returned st)"

definition processMessages :: "state \<Rightarrow> outcome" where
  "processMessages st = forEach process_message (foundMessages st) st"

subsection \<open>The global toggle\<close>

definition getElementById :: "string \<Rightarrow> state \<Rightarrow> (edata \<times> node list) option" where
  "getElementById i st = querySelector [[AttrIs ''id'' i]] [document st]"

text \<open>\<open>createCollapseAllButton\<close>, creating its elements from identity \<open>n\<close> on.\<close>

definition createCollapseAllButton :: "nat \<Rightarrow> node" where
  "createCollapseAllButton n =
     Elem \<lparr>ident = n, tag = ''button'', classes = [''collapse-all-button''],
           attrs = [(''id'', ''collapse-all-btn'')]\<rparr>
       [Text (utf16 [CHR 0x0A, CHR '' '', CHR '' '', CHR '' '', CHR '' '']),
        chevron (n + 1),
        Text (utf16 [CHR 0x0A, CHR '' '', CHR '' '', CHR '' '', CHR '' '']),
        Elem \<lparr>ident = n + 3, tag = ''span'', classes = [], attrs = []\<rparr>
          [Text (utf16 ''Collapse All'')],
        Text (utf16 [CHR 0x0A, CHR '' '', CHR '' ''])]"


definition button_label :: "bool \<Rightarrow> jsstring" where
  "button_label collapsed = (if collapsed then utf16 ''Expand All'' else utf16 ''Collapse All'')"




subsection \<open>\<open>insertCollapseAllButton\<close>\<close>

definition child_elements :: "node list \<Rightarrow> (edata \<times> node list) list" where
  "child_elements cs = concat (map (\<lambda>c. case c of Elem e k \<Rightarrow> [(e, k)] | Text s \<Rightarrow> []) cs)"

text \<open>\<open>document.body\<close>: the first \<open>body\<close> or \<open>frameset\<close> child of the \<open>html\<close> element.\<close>

definition document_body :: "state \<Rightarrow> (edata \<times> node list) option" where
  "document_body st =
     (case document st of
        Text s \<Rightarrow> None
      | Elem r cs \<Rightarrow>
          if tag r = ''html''
          then List.find (\<lambda>(e, k). tag e = ''body'' \<or> tag e = ''frameset'') (child_elements cs)
          else None)"

definition possibleContainers :: "state \<Rightarrow> (edata \<times> node list) option list" where
  "possibleContainers st =
     [querySelector [[TagIs ''header'']] [document st],
      querySelector [[ClassContains ''header'']] [document st],
      querySelector [[TagIs ''nav'']] [document st],
      querySelector [[TagIs ''main'']] [document st],
      document_body st]"

definition insertCollapseAllButton :: "state \<Rightarrow> state" where
  "insertCollapseAllButton st =
     (if getElementById ''collapse-all-btn'' st \<noteq> None then st
      else
        (case List.find (\<lambda>el. el \<noteq> None) (possibleContainers st) of
           Some (Some (container, ccs)) \<Rightarrow>
             let button = createCollapseAllButton (fresh st) in
             if tag container = ''header'' \<or> tag container = ''nav''
             then appendChild (ident container) button st
             else update (ident container) (\<lambda>e cs. Elem e (button # cs)) st
         | _ \<Rightarrow> st))"

subsection \<open>The mutation observer and its timers\<close>

text \<open>
  A mutation record is seen through the node types of its added nodes (1 is an element).
  The timer queue holds the due times of the scan callbacks that \<open>setTimeout\<close> registered and
  have not run yet; \<open>scans\<close> counts the scan callbacks that have run.
\<close>

record mutation_record =
  addedNodes :: "nat list"





datatype event = Mutations "mutation_record list" | Elapse nat


text \<open>A mutation batch triggers a scan when one of its records added an element node.\<close>

definition triggers :: "event \<Rightarrow> bool" where
  "triggers ev =
     (case ev of
        Mutations ms \<Rightarrow> list_ex (\<lambda>m. list_ex (\<lambda>nodeType. nodeType = 1) (addedNodes m)) ms
      | Elapse d \<Rightarrow> False)"






section \<open>Trees, identities and ancestors\<close>

lemma ids_Text [simp]: "ids (Text s) = []"
  by (simp add: ids_def)

lemma ids_Elem [simp]: "ids (Elem e cs) = ident e # concat (map ids cs)"
  by (simp add: ids_def [abs_def] map_concat comp_def)

lemma ids_descendants: "map (\<lambda>(e, cs). ident e) (descendants cs) = concat (map ids cs)"
  by (simp add: descendants_def ids_def [abs_def] map_concat comp_def)

lemma upd_absent: "i \<notin> set (ids t) \<Longrightarrow> upd i f t = t"
  by (induction t) (auto intro: map_idI)

lemma upd_absent_list: "i \<notin> set (concat (map ids cs)) \<Longrightarrow> map (upd i f) cs = cs"
  by (auto intro!: map_idI upd_absent)

lemma ancestry_empty_iff: "ancestry m t = [] \<longleftrightarrow> m \<notin> set (ids t)"
  by (induction t) auto

lemma ancestry_hd: "ancestry m t = a # as \<Longrightarrow> ident a = m"
proof (induction t arbitrary: a as)
  case (Text s)
  then show ?case by simp
next
  case (Elem e cs)
  show ?case
  proof (cases "ident e = m")
    case True
    with Elem.prems show ?thesis by simp
  next
    case False
    with Elem.prems obtain ps where c: "concat (map (ancestry m) cs) = a # ps"
      by (cases "concat (map (ancestry m) cs)") (auto split: if_splits)
    have "\<exists>c0 r. c0 \<in> set cs \<and> ancestry m c0 = a # r" using c
    proof (induction cs)
      case Nil
      then show ?case by simp
    next
      case (Cons c cs)
      then show ?case by (cases "ancestry m c") auto
    qed
    then show ?thesis
      using Elem.IH by blast
  qed
qed

lemma ancestry_last: "ancestry m (Elem e cs) \<noteq> [] \<Longrightarrow> last (ancestry m (Elem e cs)) = e"
  by (auto split: if_splits)

section \<open>The net effect of the transform\<close>

definition wrap :: "nat \<Rightarrow> string list \<Rightarrow> jsstring \<Rightarrow> edata \<Rightarrow> node list \<Rightarrow> node" where
  "wrap n wclasses previewText me mcs =
     Elem \<lparr>ident = n, tag = ''div'', classes = wclasses, attrs = []\<rparr>
       [createCollapseColumn (n + 1),
        Elem \<lparr>ident = n + 6, tag = ''div'', classes = [''message-content-container''],
              attrs = []\<rparr>
          [Elem \<lparr>ident = n + 7, tag = ''div'', classes = [''message-preview''], attrs = []\<rparr>
             (text_children previewText),
           Elem \<lparr>ident = n + 8, tag = ''div'', classes = [''message-content''], attrs = []\<rparr>
             [Elem me mcs]]]"

definition map_trees :: "(node \<Rightarrow> node) \<Rightarrow> state \<Rightarrow> state" where
  "map_trees f st = st\<lparr>document := f (document st), detached := map f (detached st)\<rparr>"

lemma update_map_trees: "update i f = map_trees (upd i f)"
  by (rule ext) (simp add: update_def map_trees_def)

lemma map_trees_comp: "map_trees f (map_trees g st) = map_trees (f \<circ> g) st"
  by (simp add: map_trees_def)

lemma map_trees_cong:
  "(\<And>t. t \<in> set (trees st) \<Longrightarrow> f t = g t) \<Longrightarrow> map_trees f st = map_trees g st"
  by (simp add: map_trees_def trees_def)

lemma trees_map_trees [simp]: "trees (map_trees f st) = map f (trees st)"
  by (simp add: map_trees_def trees_def)

lemma ids_chevron [simp]: "ids (chevron k) = [k, k + 1]"
  by (simp add: chevron_def)

lemma ids_column [simp]: "ids (createCollapseColumn k) = [k, k + 1, k + 2, k + 3, k + 4]"
  by (simp add: createCollapseColumn_def numeral_eq_Suc)

lemma ids_text_children [simp]: "concat (map ids (text_children s)) = []"
  by (simp add: text_children_def)

lemma ids_wrap [simp]:
  "ids (wrap n wc pt me mcs) =
     [n, n + 1, n + 2, n + 3, n + 4, n + 5, n + 6, n + 7, n + 8] @ ids (Elem me mcs)"
  by (simp add: wrap_def numeral_eq_Suc)

lemma upd_upd_same:
  "upd p (\<lambda>e cs. Elem e (h2 cs)) (upd p (\<lambda>e cs. Elem e (h1 cs)) t) =
   upd p (\<lambda>e cs. Elem e (h2 (h1 cs))) t"
  by (induction t) auto

lemma upd_upd_fresh:
  "i \<notin> set (ids t) \<Longrightarrow> i \<noteq> p \<Longrightarrow>
   upd i g (upd p (\<lambda>e cs. Elem e (h cs)) t) = upd p (\<lambda>e cs. Elem e (map (upd i g) (h cs))) t"
  by (induction t) auto

lemma insert_before_found:
  "\<forall>c\<in>set pre. \<not> is_node m c \<Longrightarrow> is_node m c0 \<Longrightarrow>
   insert_before w m (pre @ c0 # post) = pre @ w # c0 # post"
  by (induction pre) auto

lemma not_is_node: "m \<notin> set (ids c) \<Longrightarrow> \<not> is_node m c"
  by (cases c) (auto simp: is_node_def)

text \<open>The five mutations of the transform, seen at the children of the parent.\<close>

lemma transform_children:
  assumes m: "ident me = m"
    and pre: "m \<notin> set (concat (map ids pre))" and post: "m \<notin> set (concat (map ids post))"
    and n: "n \<notin> set (concat (map ids (pre @ Elem me mcs # post)))"
    and n7: "n + 7 \<notin> set (concat (map ids (pre @ Elem me mcs # post)))"
  shows "map (upd (n + 7) (\<lambda>e cs. Elem e (text_children s)))
           (map (upd n (\<lambda>e cs. Elem e (cs @ [
                   Elem \<lparr>ident = n + 6, tag = ''div'', classes = [''message-content-container''],
                         attrs = []\<rparr>
                    [Elem \<lparr>ident = n + 7, tag = ''div'', classes = [''message-preview''],
                           attrs = []\<rparr> [],
                     Elem \<lparr>ident = n + 8, tag = ''div'', classes = [''message-content''],
                           attrs = []\<rparr> [Elem me mcs]]])))
             (filter (\<lambda>c. \<not> is_node m c)
               (map (upd n (\<lambda>e cs. Elem e (cs @ [createCollapseColumn (n + 1)])))
                 (insert_before (Elem \<lparr>ident = n, tag = ''div'', classes = wc, attrs = []\<rparr> []) m
                    (pre @ Elem me mcs # post))))) =
         pre @ wrap n wc s me mcs # post"
proof -
  let ?wd = "\<lparr>ident = n, tag = ''div'', classes = wc, attrs = []\<rparr>"
  let ?cc = "Elem \<lparr>ident = n + 6, tag = ''div'', classes = [''message-content-container''],
                         attrs = []\<rparr>"
  let ?pv = "Elem \<lparr>ident = n + 7, tag = ''div'', classes = [''message-preview''],
                           attrs = []\<rparr>"
  let ?cw = "Elem \<lparr>ident = n + 8, tag = ''div'', classes = [''message-content''],
                           attrs = []\<rparr> [Elem me mcs]"
  let ?col = "createCollapseColumn (n + 1)"
  have nm: "n \<noteq> m" using n m by auto
  have pre_m: "\<forall>c\<in>set pre. \<not> is_node m c" using pre by (auto simp: not_is_node)
  have post_m: "\<forall>c\<in>set post. \<not> is_node m c" using post by (auto simp: not_is_node)
  have is_m: "is_node m (Elem me mcs)" using m by (simp add: is_node_def)
  have not_w: "\<not> is_node m (Elem ?wd k)" for k using nm by (simp add: is_node_def)
  have pre_n: "map (upd n f) pre = pre" for f using n by (auto intro: upd_absent_list)
  have post_n: "map (upd n f) post = post" for f using n by (auto intro: upd_absent_list)
  have pre_n7: "map (upd (n + 7) f) pre = pre" for f using n7 by (auto intro: upd_absent_list)
  have post_n7: "map (upd (n + 7) f) post = post" for f using n7 by (auto intro: upd_absent_list)
  have m_n: "upd n f (Elem me mcs) = Elem me mcs" for f
    using n by (intro upd_absent) auto
  have m_n7: "upd (n + 7) f (Elem me mcs) = Elem me mcs" for f
    using n7 by (intro upd_absent) auto
  have col_n7: "upd (n + 7) f (createCollapseColumn (Suc n)) = createCollapseColumn (Suc n)" for f
    by (intro upd_absent) simp
  have f_pre: "filter (\<lambda>c. \<not> is_node m c) pre = pre" using pre_m by (simp add: filter_id_conv)
  have f_post: "filter (\<lambda>c. \<not> is_node m c) post = post" using post_m by (simp add: filter_id_conv)
  have w_n: "upd n f (Elem ?wd k) = f ?wd k" for f k by simp
  have s1: "insert_before (Elem ?wd []) m (pre @ Elem me mcs # post) =
            pre @ Elem ?wd [] # Elem me mcs # post"
    by (rule insert_before_found [OF pre_m is_m])
  have s2: "map (upd n (\<lambda>e cs. Elem e (cs @ [?col]))) (pre @ Elem ?wd [] # Elem me mcs # post) =
            pre @ Elem ?wd [?col] # Elem me mcs # post"
    by (simp only: map_append list.map pre_n post_n m_n w_n append_Nil)
  have s3: "filter (\<lambda>c. \<not> is_node m c) (pre @ Elem ?wd [?col] # Elem me mcs # post) =
            pre @ Elem ?wd [?col] # post"
    by (simp add: f_pre f_post is_m not_w)
  have s4: "map (upd n (\<lambda>e cs. Elem e (cs @ [?cc [?pv [], ?cw]]))) (pre @ Elem ?wd [?col] # post) =
            pre @ Elem ?wd [?col, ?cc [?pv [], ?cw]] # post"
    by (simp only: map_append list.map pre_n post_n w_n append_Cons append_Nil)
  have s5: "map (upd (n + 7) (\<lambda>e cs. Elem e (text_children s)))
              (pre @ Elem ?wd [?col, ?cc [?pv [], ?cw]] # post) =
            pre @ wrap n wc s me mcs # post"
    by (simp add: pre_n7 post_n7 wrap_def m_n7 col_n7 del: upd.simps
        add: upd.simps(2) [of _ _ ?wd] upd.simps(2) [of _ _ "\<lparr>ident = n + 6, tag = ''div'', classes = [''message-content-container''], attrs = []\<rparr>"]
         upd.simps(2) [of _ _ "\<lparr>ident = n + 7, tag = ''div'', classes = [''message-preview''], attrs = []\<rparr>"]
         upd.simps(2) [of _ _ "\<lparr>ident = n + 8, tag = ''div'', classes = [''message-content''], attrs = []\<rparr>"])
  show ?thesis
    by (simp only: s1 s2 s3 s4 s5)
qed

lemma ancestry_idents: "a \<in> set (ancestry m t) \<Longrightarrow> ident a \<in> set (ids t)"
  by (induction t) (auto split: if_splits)

lemma ancestry_singleton:
  "ancestry m t = [a] \<Longrightarrow> \<exists>k. t = Elem a k \<and> ident a = m"
  by (cases t) (auto split: if_splits)

lemma concat_ancestry_unique:
  assumes "distinct (concat (map ids cs))" "c0 \<in> set cs" "m \<in> set (ids c0)"
  shows "concat (map (ancestry m) cs) = ancestry m c0"
proof -
  from assms(2) obtain pre post where cs: "cs = pre @ c0 # post"
    by (auto dest: split_list)
  have "\<forall>c\<in>set pre \<union> set post. m \<notin> set (ids c)"
    using assms(1,3) unfolding cs by auto
  then have "\<forall>c\<in>set pre \<union> set post. ancestry m c = []"
    by (simp add: ancestry_empty_iff)
  then have "concat (map (ancestry m) pre) = []" "concat (map (ancestry m) post) = []"
    by auto
  then show ?thesis unfolding cs by (simp del: concat_eq_Nil_conv)
qed

lemma concat_ancestry_child:
  assumes "concat (map (ancestry m) cs) \<noteq> []"
  shows "\<exists>c0\<in>set cs. m \<in> set (ids c0)"
  using assms by (auto simp: ancestry_empty_iff)

definition transform_at :: "nat \<Rightarrow> string list \<Rightarrow> jsstring \<Rightarrow> nat \<Rightarrow> edata \<Rightarrow> node list \<Rightarrow> node list \<Rightarrow> node list" where
  "transform_at n wc s m me mcs cs =
     map (upd (n + 7) (\<lambda>e cs. Elem e (text_children s)))
           (map (upd n (\<lambda>e cs. Elem e (cs @ [
                   Elem \<lparr>ident = n + 6, tag = ''div'', classes = [''message-content-container''],
                         attrs = []\<rparr>
                    [Elem \<lparr>ident = n + 7, tag = ''div'', classes = [''message-preview''],
                           attrs = []\<rparr> [],
                     Elem \<lparr>ident = n + 8, tag = ''div'', classes = [''message-content''],
                           attrs = []\<rparr> [Elem me mcs]]])))
             (filter (\<lambda>c. \<not> is_node m c)
               (map (upd n (\<lambda>e cs. Elem e (cs @ [createCollapseColumn (n + 1)])))
                 (insert_before (Elem \<lparr>ident = n, tag = ''div'', classes = wc, attrs = []\<rparr> []) m
                    cs))))"

lemma transform_tree:
  assumes "distinct (ids t)" "n \<notin> set (ids t)" "n + 7 \<notin> set (ids t)"
    and "\<forall>(e, cs)\<in>set (elems t). ident e = m \<longrightarrow> e = me \<and> cs = mcs"
    and "(\<exists>a pe rest. ancestry m t = a # pe # rest \<and> ident pe = p) \<or>
         (m \<notin> set (ids t) \<and> p \<notin> set (ids t))"
  shows "upd p (\<lambda>e cs. Elem e (transform_at n wc s m me mcs cs)) t = upd m (wrap n wc s) t"
  using assms
proof (induction t)
  case (Text x)
  show ?case by simp
next
  case (Elem e cs)
  from Elem.prems(5) show ?case
  proof
    assume "m \<notin> set (ids (Elem e cs)) \<and> p \<notin> set (ids (Elem e cs))"
    then show ?thesis by (simp add: upd_absent del: upd.simps)
  next
    assume "\<exists>a pe rest. ancestry m (Elem e cs) = a # pe # rest \<and> ident pe = p"
    then obtain a pe rest where anc: "ancestry m (Elem e cs) = a # pe # rest" and pe: "ident pe = p"
      by blast
    let ?C = "concat (map (ancestry m) cs)"
    from anc have em: "ident e \<noteq> m" and C: "?C \<noteq> []" and Ce: "?C @ [e] = a # pe # rest"
      by (auto split: if_splits)
    from C obtain c0 where c0: "c0 \<in> set cs" "m \<in> set (ids c0)"
      using concat_ancestry_child by blast
    have dcs: "distinct (concat (map ids cs))" using Elem.prems(1) by simp
    have Cc0: "?C = ancestry m c0" by (rule concat_ancestry_unique [OF dcs c0])
    from c0(1) obtain pre post where cs: "cs = pre @ c0 # post"
      by (auto dest: split_list)
    have others: "\<forall>c\<in>set pre \<union> set post. set (ids c) \<inter> set (ids c0) = {}"
      using dcs unfolding cs by auto
    have om: "m \<notin> set (concat (map ids pre))" "m \<notin> set (concat (map ids post))"
      using others c0(2) by auto
    show ?thesis
    proof (cases rest)
      case Nil
      with Ce have "?C = [a]" "pe = e" by auto
      with Cc0 obtain k where k: "c0 = Elem a k" "ident a = m"
        using ancestry_singleton [of m c0 a] by auto
      have "(a, k) \<in> set (elems (Elem e cs))" unfolding cs k by simp
      with Elem.prems(4) k have ak: "a = me" "k = mcs" by auto
      have ep: "ident e = p" using pe \<open>pe = e\<close> by simp
      have pm: "p \<noteq> m" using em ep by simp
      have n1: "n \<notin> set (concat (map ids (pre @ Elem me mcs # post)))"
        using Elem.prems(2) unfolding cs k ak by simp
      have n7: "n + 7 \<notin> set (concat (map ids (pre @ Elem me mcs # post)))"
        using Elem.prems(3) unfolding cs k ak by simp
      have "transform_at n wc s m me mcs (pre @ Elem me mcs # post) = pre @ wrap n wc s me mcs # post"
        unfolding transform_at_def
        using k ak by (intro transform_children [OF _ om n1 n7]) simp
      moreover have "map (upd m (wrap n wc s)) (pre @ Elem me mcs # post) = pre @ wrap n wc s me mcs # post"
        using om k ak by (simp add: upd_absent_list)
      ultimately show ?thesis
        using ep pm unfolding cs k ak by simp
    next
      case (Cons r rest')
      with Ce have Cl: "?C = a # pe # butlast rest"
        by (metis append_butlast_last_id butlast.simps(2) butlast_snoc list.distinct(1))
      then have "pe \<in> set (ancestry m c0)" using Cc0 by simp
      then have pc0: "p \<in> set (ids c0)" using ancestry_idents pe by blast
      have ep: "ident e \<noteq> p" using Elem.prems(1) pc0 c0(1) by auto
      have "upd p (\<lambda>e cs. Elem e (transform_at n wc s m me mcs cs)) c = upd m (wrap n wc s) c"
        if "c \<in> set cs" for c
      proof (rule Elem.IH [OF that])
        show "distinct (ids c)" using dcs that by (auto simp: distinct_concat_iff)
        show "n \<notin> set (ids c)" using Elem.prems(2) that by auto
        show "n + 7 \<notin> set (ids c)" using Elem.prems(3) that by auto
        show "\<forall>(e, cs)\<in>set (elems c). ident e = m \<longrightarrow> e = me \<and> cs = mcs"
          using Elem.prems(4) that by auto
        show "(\<exists>a pe rest. ancestry m c = a # pe # rest \<and> ident pe = p) \<or>
              m \<notin> set (ids c) \<and> p \<notin> set (ids c)"
        proof (cases "c = c0")
          case True
          then show ?thesis using Cl Cc0 pe by auto
        next
          case False
          with that have "c \<in> set pre \<union> set post" unfolding cs by auto
          with others have "set (ids c) \<inter> set (ids c0) = {}" by blast
          with c0(2) pc0 show ?thesis by auto
        qed
      qed
      then show ?thesis using em ep by simp
    qed
  qed
qed

definition wf :: "state \<Rightarrow> bool" where
  "wf st = distinct (all_ids st)"

definition isUser :: "nat \<Rightarrow> edata \<Rightarrow> state \<Rightarrow> bool" where
  "isUser m me st = (''user'' \<in> set (classes me) \<or> closest userSel m st \<noteq> None)"

definition isAssistant :: "nat \<Rightarrow> edata \<Rightarrow> state \<Rightarrow> bool" where
  "isAssistant m me st = (''assistant'' \<in> set (classes me) \<or> closest assistantSel m st \<noteq> None)"

definition wrapper_classes :: "nat \<Rightarrow> edata \<Rightarrow> state \<Rightarrow> string list" where
  "wrapper_classes m me st =
     [''message-wrapper''] @ (if isUser m me st then [''user-message''] else []) @
     (if isAssistant m me st then [''assistant-message''] else [])"

definition response_text :: "edata \<Rightarrow> node list \<Rightarrow> jsstring" where
  "response_text me mcs =
     (case List.find (\<lambda>(e, c). matches responseSel e) (elems (Elem me mcs)) of
        None \<Rightarrow> []
      | Some (r, rcs) \<Rightarrow> trim (textContent (Elem r rcs)))"

definition preview_source :: "nat \<Rightarrow> edata \<Rightarrow> node list \<Rightarrow> state \<Rightarrow> jsstring" where
  "preview_source m me mcs st =
     (if isUser m me st then trim (textContent (Elem me mcs)) else response_text me mcs)"

lemma le_fold_max: "(i::nat) \<in> set xs \<Longrightarrow> i \<le> fold max xs a"
proof (induction xs arbitrary: a)
  case Nil
  then show ?case by simp
next
  case (Cons x xs)
  have mono: "a \<le> fold max xs a" for a :: nat
    by (induction xs arbitrary: a) (auto intro: order_trans [OF max.cobounded2])
  show ?case
  proof (cases "i = x")
    case True
    then show ?thesis using mono [of "max x a"] by simp
  next
    case False
    with Cons show ?thesis by simp
  qed
qed

lemma fresh_gt: "i \<in> set (all_ids st) \<Longrightarrow> i < fresh st"
  by (simp add: fresh_def le_fold_max less_Suc_eq_le)

lemma fresh_notin: "fresh st + k \<notin> set (all_ids st)"
  using fresh_gt [of "fresh st + k" st] by auto

lemma all_ids_descendants: "all_ids st = map (\<lambda>(e, cs). ident e) (descendants (trees st))"
  by (simp add: all_ids_def ids_descendants)

lemma ids_tree_subset: "t \<in> set (trees st) \<Longrightarrow> set (ids t) \<subseteq> set (all_ids st)"
  by (auto simp: all_ids_def)

lemma wf_tree: "wf st \<Longrightarrow> t \<in> set (trees st) \<Longrightarrow> distinct (ids t)"
  by (auto simp: wf_def all_ids_def distinct_concat_iff)

lemma wf_trees_disjoint:
  "wf st \<Longrightarrow> t \<in> set (trees st) \<Longrightarrow> t' \<in> set (trees st) \<Longrightarrow> i \<in> set (ids t) \<Longrightarrow>
   i \<in> set (ids t') \<Longrightarrow> ids t = ids t'"
  by (auto simp: wf_def all_ids_def distinct_concat_iff)

lemma find_Some_mem: "List.find P xs = Some x \<Longrightarrow> x \<in> set xs \<and> P x"
  by (auto simp: find_Some_iff)

lemma find_unique:
  "distinct (map f xs) \<Longrightarrow> x \<in> set xs \<Longrightarrow> List.find (\<lambda>y. f y = f x) xs = Some x"
  by (induction xs) (auto simp: rev_image_eqI)

lemma subtree_Some: "subtree m st = Some (e, cs) \<Longrightarrow> ident e = m \<and> (e, cs) \<in> set (descendants (trees st))"
  by (auto simp: subtree_def dest!: find_Some_mem)

lemma subtree_unique:
  assumes "wf st" "(e, cs) \<in> set (descendants (trees st))"
  shows "subtree (ident e) st = Some (e, cs)"
proof -
  have "distinct (map (\<lambda>(e, cs). ident e) (descendants (trees st)))"
    using assms(1) by (simp add: wf_def all_ids_descendants)
  from find_unique [OF this assms(2)] show ?thesis
    by (simp add: subtree_def case_prod_unfold)
qed

lemma descendants_trees: "(e, cs) \<in> set (descendants (trees st)) \<longleftrightarrow> (\<exists>t\<in>set (trees st). (e, cs) \<in> set (elems t))"
  by (auto simp: descendants_def)

lemma parentNode_ParentElement:
  "parentNode m st = ParentElement p \<Longrightarrow> \<exists>a pe rest. ancestors m st = a # pe # rest \<and> ident pe = p"
  by (auto simp: parentNode_def split: list.splits node.splits if_splits)

lemma ancestors_tree:
  assumes "wf st" "t \<in> set (trees st)" "m \<in> set (ids t)"
  shows "ancestors m st = ancestry m t"
  unfolding ancestors_def
  using assms by (intro concat_ancestry_unique) (auto simp: wf_def all_ids_def)

lemma ancestors_idents: "a \<in> set (ancestors m st) \<Longrightarrow> ident a \<in> set (all_ids st)"
  by (auto simp: ancestors_def all_ids_def dest: ancestry_idents)

lemma ancestors_empty_iff: "ancestors m st = [] \<longleftrightarrow> m \<notin> set (all_ids st)"
  by (auto simp: ancestors_def all_ids_def ancestry_empty_iff)

lemma transform_composed:
  assumes "n \<notin> set (ids t)" "n + 7 \<notin> set (ids t)" "n \<noteq> p" "n + 7 \<noteq> p"
  shows "upd (n + 7) (\<lambda>e cs. Elem e (text_children s))
           (upd n (\<lambda>e cs. Elem e (cs @ [
                   Elem \<lparr>ident = n + 6, tag = ''div'', classes = [''message-content-container''],
                         attrs = []\<rparr>
                    [Elem \<lparr>ident = n + 7, tag = ''div'', classes = [''message-preview''],
                           attrs = []\<rparr> [],
                     Elem \<lparr>ident = n + 8, tag = ''div'', classes = [''message-content''],
                           attrs = []\<rparr> [Elem me mcs]]]))
             (upd p (\<lambda>e cs. Elem e (filter (\<lambda>c. \<not> is_node m c) cs))
               (upd n (\<lambda>e cs. Elem e (cs @ [createCollapseColumn (n + 1)]))
                 (upd p (\<lambda>e cs. Elem e (insert_before (Elem \<lparr>ident = n, tag = ''div'', classes = wc, attrs = []\<rparr> []) m cs)) t)))) =
         upd p (\<lambda>e cs. Elem e (transform_at n wc s m me mcs cs)) t"
  using assms
  by (simp add: upd_upd_fresh upd_upd_same transform_at_def del: upd.simps)

lemma response_query:
  "querySelector responseSel
     [Elem \<lparr>ident = a, tag = ''div'', classes = [''message-preview''], attrs = []\<rparr> [],
      Elem \<lparr>ident = b, tag = ''div'', classes = [''message-content''], attrs = []\<rparr> [Elem me mcs]] =
   List.find (\<lambda>(e, c). matches responseSel e) (elems (Elem me mcs))"
  by (simp add: querySelector_def descendants_def matches_def responseSel_def getAttribute_def)

lemma transform_state:
  assumes wf: "wf st" and sub: "subtree m st = Some (me, mcs)"
    and par: "parentNode m st = ParentElement p" and n: "n = fresh st"
  shows "setTextContent (n + 7) s
           (appendChild n
              (Elem \<lparr>ident = n + 6, tag = ''div'', classes = [''message-content-container''],
                         attrs = []\<rparr>
                    [Elem \<lparr>ident = n + 7, tag = ''div'', classes = [''message-preview''],
                           attrs = []\<rparr> [],
                     Elem \<lparr>ident = n + 8, tag = ''div'', classes = [''message-content''],
                           attrs = []\<rparr> [Elem me mcs]])
              (removeChild p m
                 (appendChild n (createCollapseColumn (n + 1))
                    (insertBefore p (Elem \<lparr>ident = n, tag = ''div'', classes = wc, attrs = []\<rparr> []) m st)))) =
         update m (wrap n wc s) st"
proof -
  from parentNode_ParentElement [OF par] obtain a pe rest where
    anc: "ancestors m st = a # pe # rest" and pe: "ident pe = p" by blast
  have p_in: "p \<in> set (all_ids st)" using ancestors_idents [of pe m st] anc pe by auto
  have m_in: "m \<in> set (all_ids st)" using anc ancestors_empty_iff [of m st] by auto
  have np: "n \<noteq> p" "n + 7 \<noteq> p" using fresh_gt [OF p_in] n by auto
  have per_tree:
    "upd (n + 7) (\<lambda>e cs. Elem e (text_children s))
           (upd n (\<lambda>e cs. Elem e (cs @ [
                   Elem \<lparr>ident = n + 6, tag = ''div'', classes = [''message-content-container''],
                         attrs = []\<rparr>
                    [Elem \<lparr>ident = n + 7, tag = ''div'', classes = [''message-preview''],
                           attrs = []\<rparr> [],
                     Elem \<lparr>ident = n + 8, tag = ''div'', classes = [''message-content''],
                           attrs = []\<rparr> [Elem me mcs]]]))
             (upd p (\<lambda>e cs. Elem e (filter (\<lambda>c. \<not> is_node m c) cs))
               (upd n (\<lambda>e cs. Elem e (cs @ [createCollapseColumn (n + 1)]))
                 (upd p (\<lambda>e cs. Elem e (insert_before (Elem \<lparr>ident = n, tag = ''div'', classes = wc, attrs = []\<rparr> []) m cs)) t)))) =
         upd m (wrap n wc s) t" if t: "t \<in> set (trees st)" for t
  proof -
    have fr: "n \<notin> set (ids t)" "n + 7 \<notin> set (ids t)"
      using fresh_notin [of st 0] fresh_notin [of st 7] ids_tree_subset [OF t] n by auto
    have d: "distinct (ids t)" by (rule wf_tree [OF wf t])
    have uniq: "\<forall>(e, cs)\<in>set (elems t). ident e = m \<longrightarrow> e = me \<and> cs = mcs"
    proof (clarify)
      fix e cs assume "(e, cs) \<in> set (elems t)" "m = ident e"
      then have "subtree m st = Some (e, cs)"
        using subtree_unique [OF wf, of e cs] t by (auto simp: descendants_trees)
      with sub show "e = me \<and> cs = mcs" by simp
    qed
    have alt: "(\<exists>a pe rest. ancestry m t = a # pe # rest \<and> ident pe = p) \<or>
         (m \<notin> set (ids t) \<and> p \<notin> set (ids t))"
    proof (cases "m \<in> set (ids t)")
      case True
      then show ?thesis using ancestors_tree [OF wf t True] anc pe by metis
    next
      case False
      from m_in obtain t0 where t0: "t0 \<in> set (trees st)" "m \<in> set (ids t0)"
        by (auto simp: all_ids_def)
      have "pe \<in> set (ancestry m t0)" using ancestors_tree [OF wf t0] anc
        by (metis list.set_intros(1,2))
      then have "p \<in> set (ids t0)" using ancestry_idents pe by blast
      then have "p \<notin> set (ids t)"
        using wf_trees_disjoint [OF wf t t0(1), of p] t0(2) False by auto
      with False show ?thesis by simp
    qed
    show ?thesis
      unfolding transform_composed [OF fr np]
      by (rule transform_tree [OF d fr uniq alt])
  qed
  show ?thesis
    unfolding setTextContent_def appendChild_def removeChild_def insertBefore_def
      update_map_trees map_trees_comp
    by (rule map_trees_cong) (simp only: o_apply per_tree)
qed

lemma addToggle_effect:
  assumes wf: "wf st" and sub: "subtree m st = Some (me, mcs)"
    and unwrapped: "closest wrapperSel m st = None"
    and len: "20 \<le> length (trim (textContent (Elem me mcs)))"
    and par: "parentNode m st = ParentElement p"
  shows "addToggleToMessage m st =
         Returned (update m (wrap (fresh st) (wrapper_classes m me st)
                               (ellipsize (preview_source m me mcs st))) st)"
proof -
  have "\<not> length (trim (textContent (Elem me mcs))) < 20" using len by simp
  then show ?thesis
    unfolding addToggleToMessage_def Let_def
    by (simp add: sub unwrapped par response_query
        transform_state [OF wf sub par refl, simplified]
        wrapper_classes_def isUser_def isAssistant_def preview_source_def response_text_def
        del: textContent.simps elems.simps)
qed

section \<open>Identities and elements after the transform\<close>

definition new_ids :: "nat \<Rightarrow> nat list" where
  "new_ids n = [n, n + 1, n + 2, n + 3, n + 4, n + 5, n + 6, n + 7, n + 8]"

definition with_new :: "nat \<Rightarrow> nat \<Rightarrow> nat \<Rightarrow> nat list" where
  "with_new n y = (\<lambda>i. if i = y then new_ids n @ [i] else [i])"

lemma with_new_same [simp]: "with_new n y y = new_ids n @ [y]"
  by (simp add: with_new_def)

lemma with_new_other [simp]: "i \<noteq> y \<Longrightarrow> with_new n y i = [i]"
  by (simp add: with_new_def)

lemma concat_map_concat: "concat (map g (concat xss)) = concat (map (\<lambda>xs. concat (map g xs)) xss)"
  by (induction xss) auto

lemma elems_trans: "(e, cs) \<in> set (elems t) \<Longrightarrow> set (elems (Elem e cs)) \<subseteq> set (elems t)"
  by (induction t) auto

lemma ids_trans: "(e, cs) \<in> set (elems t) \<Longrightarrow> set (ids (Elem e cs)) \<subseteq> set (ids t)"
  using elems_trans [of e cs t] unfolding ids_def by (metis image_mono set_map)

lemma concat_with_new_absent:
  "y \<notin> set xs \<Longrightarrow> concat (map (with_new n y) xs) = xs"
  by (induction xs) auto

lemma ids_upd_wrap:
  "distinct (ids t) \<Longrightarrow> ids (upd y (wrap n wc s) t) = concat (map (with_new n y) (ids t))"
proof (induction t)
  case (Text x)
  show ?case by simp
next
  case (Elem e cs)
  show ?case
  proof (cases "ident e = y")
    case True
    then have "y \<notin> set (concat (map ids cs))" using Elem.prems by auto
    then have "concat (map (with_new n y) (concat (map ids cs))) = concat (map ids cs)"
      by (rule concat_with_new_absent)
    then show ?thesis using True
      by (simp add: new_ids_def)
  next
    case False
    have "ids (upd y (wrap n wc s) c) = concat (map (with_new n y) (ids c))" if "c \<in> set cs" for c
      using Elem.IH [OF that] Elem.prems that by (auto simp: distinct_concat_iff)
    then have m: "map (\<lambda>c. ids (upd y (wrap n wc s) c)) cs =
                  map (\<lambda>c. concat (map (with_new n y) (ids c))) cs"
      by simp
    show ?thesis using False
      by (simp add: concat_map_concat comp_def m)
  qed
qed

lemma distinct_with_new:
  assumes "distinct xs" "\<forall>k\<le>8. n + k \<notin> set xs"
  shows "distinct (concat (map (with_new n y) xs))"
proof -
  have new: "set (new_ids n) = {n + k |k. k \<le> 8}"
    unfolding new_ids_def
    apply (auto simp: numeral_eq_Suc le_Suc_eq)
    done
  have dn: "distinct (new_ids n)" by (simp add: new_ids_def)
  have sub: "set (concat (map (with_new n y) zs)) \<subseteq> set zs \<union> (if y \<in> set zs then set (new_ids n) else {})" for zs
    by (induction zs) (auto simp: with_new_def)
  show ?thesis using assms
  proof (induction xs)
    case Nil
    show ?case by simp
  next
    case (Cons x xs)
    have IH: "distinct (concat (map (with_new n y) xs))" using Cons by auto
    have xnew: "x \<notin> set (new_ids n)" using Cons.prems(2) new by auto
    have tailnew: "set xs \<inter> set (new_ids n) = {}" using Cons.prems(2) new by auto
    show ?case
    proof (cases "x = y")
      case True
      then have "y \<notin> set xs" using Cons.prems(1) by auto
      then have "concat (map (with_new n y) xs) = xs" by (rule concat_with_new_absent)
      then show ?thesis using True Cons.prems(1) dn xnew tailnew
        by auto
    next
      case False
      have "x \<notin> set (concat (map (with_new n y) xs))"
        using sub [of xs] Cons.prems(1) xnew by (auto split: if_splits)
      then show ?thesis using False IH by simp
    qed
  qed
qed

lemma all_ids_update_wrap:
  assumes "wf st"
  shows "all_ids (update y (wrap n wc s) st) = concat (map (with_new n y) (all_ids st))"
proof -
  have "ids (upd y (wrap n wc s) t) = concat (map (with_new n y) (ids t))" if "t \<in> set (trees st)" for t
    using ids_upd_wrap wf_tree [OF assms that] by blast
  then have m: "map (\<lambda>t. ids (upd y (wrap n wc s) t)) (trees st) =
                map (\<lambda>t. concat (map (with_new n y) (ids t))) (trees st)"
    by simp
  show ?thesis
    by (simp add: all_ids_def update_map_trees concat_map_concat comp_def m)
qed

lemma wf_update_wrap:
  assumes "wf st" "fresh st \<le> n"
  shows "wf (update y (wrap n wc s) st)"
proof -
  have "\<forall>k\<le>8. n + k \<notin> set (all_ids st)"
    using fresh_gt [of _ st] assms(2) by fastforce
  then show ?thesis
    using assms(1) unfolding wf_def all_ids_update_wrap [OF assms(1)]
    by (intro distinct_with_new) (auto simp: wf_def)
qed

lemma elems_wrap:
  "set (elems (Elem e cs)) \<subseteq> set (elems (wrap n wc s e cs))"
  by (auto simp: wrap_def)

lemma elems_upd_wrap_mem:
  assumes "distinct (ids t)" "(e, cs) \<in> set (elems t)" "ident e \<noteq> y"
  shows "(e, map (upd y (wrap n wc s)) cs) \<in> set (elems (upd y (wrap n wc s) t))"
  using assms
proof (induction t)
  case (Text x)
  then show ?case by simp
next
  case (Elem e0 cs0)
  show ?case
  proof (cases "ident e0 = y")
    case True
    with Elem.prems(2,3) have mem: "(e, cs) \<in> set (descendants cs0)"
      by (auto simp: descendants_def)
    have "y \<notin> set (concat (map ids cs0))" using Elem.prems(1) True by auto
    moreover have "set (concat (map ids cs)) \<subseteq> set (concat (map ids cs0))"
      using mem ids_trans [of e cs] by (fastforce simp: descendants_def)
    ultimately have "map (upd y (wrap n wc s)) cs = cs"
      by (intro upd_absent_list) auto
    then show ?thesis using True mem elems_wrap [of e0 cs0 n wc s]
      by (auto simp: descendants_def simp del: elems.simps) (auto)
  next
    case False
    show ?thesis
    proof (cases "(e, cs) = (e0, cs0)")
      case True
      then show ?thesis using False by simp
    next
      case F2: False
      with Elem.prems(2) obtain c where c: "c \<in> set cs0" "(e, cs) \<in> set (elems c)" by auto
      have "distinct (ids c)" using Elem.prems(1) c(1) by (auto simp: distinct_concat_iff)
      from Elem.IH [OF c(1) this c(2) Elem.prems(3)] show ?thesis
        using False c(1) by auto
    qed
  qed
qed

definition inside_wrapper :: "nat \<Rightarrow> state \<Rightarrow> bool" where
  "inside_wrapper m st = list_ex (\<lambda>a. ''message-wrapper'' \<in> set (classes a)) (ancestors m st)"

lemma matches_wrapperSel [simp]: "matches wrapperSel e \<longleftrightarrow> ''message-wrapper'' \<in> set (classes e)"
  by (simp add: matches_def wrapperSel_def)

lemma closest_wrapper_iff: "closest wrapperSel m st \<noteq> None \<longleftrightarrow> inside_wrapper m st"
  by (auto simp: closest_def inside_wrapper_def find_None_iff list_ex_iff)

lemma closest_wrapper_None: "closest wrapperSel m st = None \<longleftrightarrow> \<not> inside_wrapper m st"
  using closest_wrapper_iff [of m st] by blast

lemma subtree_update_wrap:
  assumes "wf st" "fresh st \<le> n" "subtree x st = Some (e, cs)" "x \<noteq> y"
  shows "subtree x (update y (wrap n wc s) st) = Some (e, map (upd y (wrap n wc s)) cs)"
proof -
  from subtree_Some [OF assms(3)] obtain t where
    t: "t \<in> set (trees st)" "(e, cs) \<in> set (elems t)" and x: "ident e = x"
    by (auto simp: descendants_trees)
  have "(e, map (upd y (wrap n wc s)) cs) \<in> set (elems (upd y (wrap n wc s) t))"
    using elems_upd_wrap_mem [OF wf_tree [OF assms(1) t(1)] t(2)] x assms(4) by simp
  then have "(e, map (upd y (wrap n wc s)) cs) \<in> set (descendants (trees (update y (wrap n wc s) st)))"
    using t(1) by (auto simp: descendants_def update_map_trees)
  from subtree_unique [OF wf_update_wrap [OF assms(1,2)] this] x show ?thesis by simp
qed

lemma ancestry_child:
  assumes "distinct (ids t)" "ancestry m t = a # pe # rest"
  shows "\<exists>pcs k. (pe, pcs) \<in> set (elems t) \<and> Elem a k \<in> set pcs"
  using assms
proof (induction t arbitrary: rest)
  case (Text x)
  then show ?case by simp
next
  case (Elem e cs)
  let ?C = "concat (map (ancestry m) cs)"
  from Elem.prems(2) have em: "ident e \<noteq> m" and C: "?C \<noteq> []" and Ce: "?C @ [e] = a # pe # rest"
    by (auto split: if_splits)
  from C obtain c0 where c0: "c0 \<in> set cs" "m \<in> set (ids c0)"
    using concat_ancestry_child by blast
  have dcs: "distinct (concat (map ids cs))" using Elem.prems(1) by simp
  have Cc0: "?C = ancestry m c0" by (rule concat_ancestry_unique [OF dcs c0])
  show ?case
  proof (cases rest)
    case Nil
    with Ce have "?C = [a]" "pe = e" by auto
    with Cc0 obtain k where "c0 = Elem a k" using ancestry_singleton [of m c0 a] by auto
    with c0(1) \<open>pe = e\<close> show ?thesis by auto
  next
    case (Cons r rest')
    with Ce have "?C = a # pe # butlast rest"
      by (metis append_butlast_last_id butlast.simps(2) butlast_snoc list.distinct(1))
    with Cc0 have "ancestry m c0 = a # pe # butlast rest" by simp
    moreover have "distinct (ids c0)" using dcs c0(1) by (auto simp: distinct_concat_iff)
    ultimately obtain pcs k where "(pe, pcs) \<in> set (elems c0)" "Elem a k \<in> set pcs"
      using Elem.IH [OF c0(1)] by blast
    with c0(1) show ?thesis by auto
  qed
qed

lemma child_in_elems:
  assumes "(pe, pcs) \<in> set (elems t)" "Elem a k \<in> set pcs"
  shows "(a, k) \<in> set (elems t)"
proof -
  have "(a, k) \<in> set (elems (Elem a k))" by simp
  with assms(2) have "(a, k) \<in> set (elems (Elem pe pcs))" by fastforce
  with elems_trans [OF assms(1)] show ?thesis by blast
qed

lemma parent_subtree:
  assumes wf: "wf st" and par: "parentNode m st = ParentElement p"
    and sub: "subtree m st = Some (me, mcs)"
  shows "\<exists>pe pcs. subtree p st = Some (pe, pcs) \<and> Elem me mcs \<in> set pcs"
proof -
  from parentNode_ParentElement [OF par] obtain a pe rest where
    anc: "ancestors m st = a # pe # rest" and pe: "ident pe = p" by blast
  have "m \<in> set (all_ids st)" using anc ancestors_empty_iff [of m st] by auto
  then obtain t0 where t0: "t0 \<in> set (trees st)" "m \<in> set (ids t0)"
    by (auto simp: all_ids_def)
  have a0: "ancestry m t0 = a # pe # rest" using ancestors_tree [OF wf t0] anc by simp
  from ancestry_child [OF wf_tree [OF wf t0(1)] a0] obtain pcs k where
    pk: "(pe, pcs) \<in> set (elems t0)" "Elem a k \<in> set pcs" by blast
  have am: "ident a = m" using ancestry_hd [OF a0] .
  have "(a, k) \<in> set (descendants (trees st))"
    using child_in_elems [OF pk] t0(1) by (auto simp: descendants_trees)
  from subtree_unique [OF wf this] sub am have "a = me" "k = mcs" by auto
  moreover have "subtree p st = Some (pe, pcs)"
    using subtree_unique [OF wf, of pe pcs] pk(1) t0(1) pe by (auto simp: descendants_trees)
  ultimately show ?thesis using pk(2) by auto
qed

lemma ancestry_wrap:
  assumes "x \<notin> set (new_ids n)"
  shows "ancestry x (wrap n wc s e cs) =
         (if ancestry x (Elem e cs) = [] then []
          else ancestry x (Elem e cs) @
               [\<lparr>ident = n + 8, tag = ''div'', classes = [''message-content''], attrs = []\<rparr>,
                \<lparr>ident = n + 6, tag = ''div'', classes = [''message-content-container''], attrs = []\<rparr>,
                \<lparr>ident = n, tag = ''div'', classes = wc, attrs = []\<rparr>])"
proof -
  have col: "ancestry x (createCollapseColumn (Suc n)) = []"
    using assms by (simp add: ancestry_empty_iff new_ids_def)
  have pv: "concat (map (ancestry x) (text_children s)) = []"
    by (simp add: text_children_def)
  have ne: "x \<noteq> n" "x \<noteq> n + 6" "x \<noteq> n + 7" "x \<noteq> n + 8" using assms by (auto simp: new_ids_def)
  show ?thesis
    unfolding wrap_def using ne
    by (simp add: col pv del: ancestry.simps
        add: ancestry.simps(2) [of _ "\<lparr>ident = n + 8, tag = ''div'', classes = [''message-content''], attrs = []\<rparr>"]
          ancestry.simps(2) [of _ "\<lparr>ident = n + 7, tag = ''div'', classes = [''message-preview''], attrs = []\<rparr>"]
          ancestry.simps(2) [of _ "\<lparr>ident = n + 6, tag = ''div'', classes = [''message-content-container''], attrs = []\<rparr>"]
          ancestry.simps(2) [of _ "\<lparr>ident = n, tag = ''div'', classes = wc, attrs = []\<rparr>"])
qed

lemma wrapper_in_ancestry:
  assumes "m \<in> set (ids t)" "m \<notin> set (new_ids n)"
  shows "\<lparr>ident = n, tag = ''div'', classes = wc, attrs = []\<rparr> \<in> set (ancestry m (upd m (wrap n wc s) t))"
  using assms(1)
proof (induction t)
  case (Text x)
  then show ?case by simp
next
  case (Elem e cs)
  show ?case
  proof (cases "ident e = m")
    case True
    then show ?thesis by (simp add: ancestry_wrap [OF assms(2)] del: ancestry.simps) simp
  next
    case False
    with Elem.prems obtain c where c: "c \<in> set cs" "m \<in> set (ids c)" by auto
    from Elem.IH [OF c] have mem: "\<lparr>ident = n, tag = ''div'', classes = wc, attrs = []\<rparr>
        \<in> set (ancestry m (upd m (wrap n wc s) c))" .
    then have "\<lparr>ident = n, tag = ''div'', classes = wc, attrs = []\<rparr>
        \<in> set (concat (map (ancestry m \<circ> upd m (wrap n wc s)) cs))"
      using c(1) by auto
    moreover from this have "concat (map (ancestry m \<circ> upd m (wrap n wc s)) cs) \<noteq> []"
      by (metis empty_iff empty_set)
    ultimately show ?thesis using False by (simp del: concat_eq_Nil_conv set_concat)
  qed
qed

lemma inside_wrapper_after:
  assumes "m \<in> set (all_ids st)" "fresh st \<le> n" "''message-wrapper'' \<in> set wc"
  shows "inside_wrapper m (update m (wrap n wc s) st)"
proof -
  have "m \<notin> set (new_ids n)" using fresh_gt [OF assms(1)] assms(2) by (auto simp: new_ids_def)
  moreover from assms(1) obtain t where "t \<in> set (trees st)" "m \<in> set (ids t)"
    by (auto simp: all_ids_def)
  ultimately have "\<lparr>ident = n, tag = ''div'', classes = wc, attrs = []\<rparr> \<in> set (ancestors m (update m (wrap n wc s) st))"
    using wrapper_in_ancestry [of m t n wc s] by (auto simp: ancestors_def update_map_trees)
  then show ?thesis using assms(3)
    by (force simp: inside_wrapper_def list_ex_iff)
qed

lemma distinct_subtree:
  "distinct (ids t) \<Longrightarrow> (e, cs) \<in> set (elems t) \<Longrightarrow> distinct (ids (Elem e cs))"
proof (induction t)
  case (Text x)
  then show ?case by simp
next
  case (Elem e0 cs0)
  show ?case
  proof (cases "(e, cs) = (e0, cs0)")
    case True
    then show ?thesis using Elem.prems(1) by simp
  next
    case False
    with Elem.prems(2) obtain c where c: "c \<in> set cs0" "(e, cs) \<in> set (elems c)" by auto
    have "distinct (ids c)" using Elem.prems(1) c(1) by (auto simp: distinct_concat_iff)
    from Elem.IH [OF c(1) this c(2)] show ?thesis .
  qed
qed

lemma addToggle_structure:
  assumes wf: "wf st" and sub: "subtree m st = Some (me, mcs)"
    and unwrapped: "\<not> inside_wrapper m st"
    and len: "20 \<le> length (trim (textContent (Elem me mcs)))"
    and par: "parentNode m st = ParentElement p"
  shows "\<exists>pe pre post.
           subtree p st = Some (pe, pre @ Elem me mcs # post) \<and>
           addToggleToMessage m st =
             Returned (update m (wrap (fresh st) (wrapper_classes m me st)
                                   (ellipsize (preview_source m me mcs st))) st) \<and>
           subtree p (update m (wrap (fresh st) (wrapper_classes m me st)
                                   (ellipsize (preview_source m me mcs st))) st) =
             Some (pe, pre @ wrap (fresh st) (wrapper_classes m me st)
                                (ellipsize (preview_source m me mcs st)) me mcs # post)"
proof -
  let ?W = "wrap (fresh st) (wrapper_classes m me st) (ellipsize (preview_source m me mcs st))"
  from parent_subtree [OF wf par sub] obtain pe pcs where
    p: "subtree p st = Some (pe, pcs)" and child: "Elem me mcs \<in> set pcs" by blast
  from child obtain pre post where pcs: "pcs = pre @ Elem me mcs # post"
    by (auto dest: split_list)
  from subtree_Some [OF p] obtain t where t: "t \<in> set (trees st)" "(pe, pcs) \<in> set (elems t)"
    and pid: "ident pe = p" by (auto simp: descendants_trees)
  have d: "distinct (ids (Elem pe pcs))"
    by (rule distinct_subtree [OF wf_tree [OF wf t(1)] t(2)])
  have mid: "ident me = m" using subtree_Some [OF sub] by simp
  have pm: "p \<noteq> m" using d pid mid unfolding pcs by auto
  have out: "m \<notin> set (concat (map ids pre))" "m \<notin> set (concat (map ids post))"
    using d mid unfolding pcs by auto
  have "map (upd m ?W) pcs = pre @ ?W me mcs # post"
    unfolding pcs using out mid by (simp add: upd_absent_list)
  then have "subtree p (update m ?W st) = Some (pe, pre @ ?W me mcs # post)"
    using subtree_update_wrap [OF wf order_refl p pm] by simp
  moreover have "addToggleToMessage m st = Returned (update m ?W st)"
    using addToggle_effect [OF wf sub _ len par] unwrapped by (simp add: closest_wrapper_None)
  ultimately show ?thesis using p pcs by blast
qed

section \<open>An example page\<close>

text \<open>
  One user message in the document, and one element that is no longer connected to it.
\<close>

definition example_page :: state where
  "example_page =
     \<lparr>document =
        Elem \<lparr>ident = 0, tag = ''html'', classes = [], attrs = []\<rparr>
          [Elem \<lparr>ident = 1, tag = ''body'', classes = [], attrs = []\<rparr>
             [Elem \<lparr>ident = 2, tag = ''div'', classes = [''message'', ''user''], attrs = []\<rparr>
                [Elem \<lparr>ident = 3, tag = ''p'', classes = [], attrs = []\<rparr>
                   [Text (utf16 ''Hello, how are you today please respond'')]]]],
      detached =
        [Elem \<lparr>ident = 4, tag = ''div'', classes = [''message''], attrs = []\<rparr>
           [Text (utf16 ''This element has left the document'')]],
      isAllCollapsed = False\<rparr>"




text \<open>
  The document element itself can be a candidate; its parent is the Document, and the
  insertion of the wrapper there throws.
\<close>

definition prose_body :: node where
  "prose_body =
     Elem \<lparr>ident = 1, tag = ''body'', classes = [], attrs = []\<rparr>
       [Elem \<lparr>ident = 2, tag = ''p'', classes = [], attrs = []\<rparr>
          [Text (utf16 ''A page whose root element is styled as prose'')]]"

definition prose_root_page :: state where
  "prose_root_page =
     \<lparr>document = Elem \<lparr>ident = 0, tag = ''html'', classes = [''prose''], attrs = []\<rparr> [prose_body],
      detached = [],
      isAllCollapsed = False\<rparr>"




text \<open>A page with a main region, a navigation bar and a header-like division.\<close>

definition layout_page :: state where
  "layout_page =
     \<lparr>document =
        Elem \<lparr>ident = 0, tag = ''html'', classes = [], attrs = []\<rparr>
          [Elem \<lparr>ident = 1, tag = ''body'', classes = [], attrs = []\<rparr>
             [Elem \<lparr>ident = 2, tag = ''main'', classes = [], attrs = []\<rparr> [],
              Elem \<lparr>ident = 3, tag = ''nav'', classes = [], attrs = []\<rparr>
                [Text (utf16 ''Chats'')],
              Elem \<lparr>ident = 4, tag = ''div'', classes = [''page-header''], attrs = []\<rparr> []]],
      detached = [],
      isAllCollapsed = False\<rparr>"


section \<open>The scan scheduler\<close>

lemma triggers_Elapse [simp]: "\<not> triggers (Elapse d)"
  by (simp add: triggers_def)









section \<open>The augmentation transform\<close>

text \<open>
  Claim C10: \<open>addToggleToMessage\<close> checks its preconditions itself.  Called on an element
  that is a wrapper or lies inside one, or whose trimmed text is shorter than 20 code units,
  it returns and leaves the whole page as it was.
\<close>

theorem C10_transform_guards:
  assumes "subtree m st = Some (me, mcs)"
    and "inside_wrapper m st \<or> length (trim (textContent (Elem me mcs))) < 20"
  shows "addToggleToMessage m st = Returned st"
  using assms unfolding addToggleToMessage_def
  by (auto simp: closest_wrapper_None)

theorem C10_transform_guards_witness:
  "subtree 3 (page (processMessages example_page)) =
     Some (\<lparr>ident = 3, tag = ''p'', classes = [], attrs = []\<rparr>,
           [Text (utf16 ''Hello, how are you today please respond'')]) \<and>
   inside_wrapper 3 (page (processMessages example_page)) \<and>
   addToggleToMessage 3 (page (processMessages example_page)) =
     Returned (page (processMessages example_page))"
proof -
  have h1: "subtree 3 (page (processMessages example_page)) =
     Some (\<lparr>ident = 3, tag = ''p'', classes = [], attrs = []\<rparr>,
           [Text (utf16 ''Hello, how are you today please respond'')])"
    by code_simp
  have h2: "inside_wrapper 3 (page (processMessages example_page))"
    by code_simp
  from C10_transform_guards [OF h1 disjI1 [OF h2]] h1 h2 show ?thesis by simp
qed

text \<open>
  Claim C8: when the element has no parent node (it was removed from the document before
  the transform runs), \<open>addToggleToMessage\<close> returns without throwing and leaves the whole
  page as it was.
\<close>

theorem C8_no_parent_no_op:
  assumes "parentNode m st = NoParent"
  shows "addToggleToMessage m st = Returned st"
  using assms unfolding addToggleToMessage_def Let_def
  by (simp split: option.splits)

theorem C8_no_parent_no_op_witness:
  "parentNode 4 example_page = NoParent \<and>
   \<not> inside_wrapper 4 example_page \<and>
   20 \<le> length (trim (utf16 ''This element has left the document'')) \<and>
   addToggleToMessage 4 example_page = Returned example_page"
proof -
  have h1: "parentNode 4 example_page = NoParent" by code_simp
  have h2: "\<not> inside_wrapper 4 example_page" by code_simp
  have h3: "20 \<le> length (trim (utf16 ''This element has left the document''))" by code_simp
  from C8_no_parent_no_op [OF h1] h1 h2 h3 show ?thesis by simp
qed

lemma textContent_text_children: "textContent (Elem e (text_children s)) = s"
  by (simp add: text_children_def)






text \<open>
  Claim C6: the preview text.  The preview of the new wrapper holds the source text cut to
  its first 150 code units, followed by \<open>...\<close> exactly when the source is longer than 150.
  The source is the element's trimmed text when the element is classified as a user message,
  otherwise the trimmed text of the first element with id \<open>response-content-container\<close> in
  the element's subtree, and the empty string when there is none.
\<close>

theorem C6_preview_text:
  assumes "wf st" and "subtree m st = Some (me, mcs)" and "\<not> inside_wrapper m st"
    and "20 \<le> length (trim (textContent (Elem me mcs)))"
    and "parentNode m st = ParentElement p"
    and "source =
           (if isUser m me st then trim (textContent (Elem me mcs))
            else (case List.find (\<lambda>(e, c). getAttribute ''id'' e = Some ''response-content-container'')
                         (elems (Elem me mcs)) of
                    None \<Rightarrow> []
                  | Some (r, rcs) \<Rightarrow> trim (textContent (Elem r rcs))))"
  shows "\<exists>pe pre post w column container preview pcs content st'.
           addToggleToMessage m st = Returned st' \<and>
           subtree p st' =
             Some (pe, pre @ Elem w [column, Elem container [Elem preview pcs, Elem content [Elem me mcs]]]
                           # post) \<and>
           classes preview = [''message-preview''] \<and>
           textContent (Elem preview pcs) =
             take 150 source @ (if 150 < length source then utf16 ''...'' else [])"
proof -
  have src: "source = preview_source m me mcs st"
    unfolding assms(6) preview_source_def response_text_def
    by (simp add: matches_def responseSel_def)
  from addToggle_structure [OF assms(1-5)] obtain pe pre post where
    s: "addToggleToMessage m st =
         Returned (update m (wrap (fresh st) (wrapper_classes m me st)
                               (ellipsize (preview_source m me mcs st))) st)"
      "subtree p (update m (wrap (fresh st) (wrapper_classes m me st)
                               (ellipsize (preview_source m me mcs st))) st) =
         Some (pe, pre @ wrap (fresh st) (wrapper_classes m me st)
                            (ellipsize (preview_source m me mcs st)) me mcs # post)"
    by blast
  have "textContent (Elem e (text_children (ellipsize source))) =
        take 150 source @ (if 150 < length source then utf16 ''...'' else [])" for e :: edata
    by (simp only: textContent_text_children ellipsize_def substring0_def)
  then show ?thesis
    using s unfolding wrap_def src [symmetric]
    by (intro exI conjI) (assumption | simp)+
qed


theorem C6_preview_text_witness:
  "wf example_page \<and> \<not> inside_wrapper 2 example_page \<and>
   parentNode 2 example_page = ParentElement 1 \<and>
   isUser 2 \<lparr>ident = 2, tag = ''div'', classes = [''message'', ''user''], attrs = []\<rparr> example_page \<and>
   (\<exists>pe pre post w column container preview pcs content st'.
           addToggleToMessage 2 example_page = Returned st' \<and>
           subtree 1 st' =
             Some (pe, pre @ Elem w [column, Elem container [Elem preview pcs, Elem content
               [Elem \<lparr>ident = 2, tag = ''div'', classes = [''message'', ''user''], attrs = []\<rparr>
                [Elem \<lparr>ident = 3, tag = ''p'', classes = [], attrs = []\<rparr>
                   [Text (utf16 ''Hello, how are you today please respond'')]]]]]
                           # post) \<and>
           classes preview = [''message-preview''] \<and>
           textContent (Elem preview pcs) = utf16 ''Hello, how are you today please respond'')"
proof -
  have w: "wf example_page" by code_simp
  have s: "subtree 2 example_page =
             Some (\<lparr>ident = 2, tag = ''div'', classes = [''message'', ''user''], attrs = []\<rparr>,
                [Elem \<lparr>ident = 3, tag = ''p'', classes = [], attrs = []\<rparr>
                   [Text (utf16 ''Hello, how are you today please respond'')]])" by code_simp
  have u: "\<not> inside_wrapper 2 example_page" by code_simp
  have l: "20 \<le> length (trim (textContent (Elem \<lparr>ident = 2, tag = ''div'', classes = [''message'', ''user''], attrs = []\<rparr>
                [Elem \<lparr>ident = 3, tag = ''p'', classes = [], attrs = []\<rparr>
                   [Text (utf16 ''Hello, how are you today please respond'')]])))" by code_simp
  have p: "parentNode 2 example_page = ParentElement 1" by code_simp
  have i: "isUser 2 \<lparr>ident = 2, tag = ''div'', classes = [''message'', ''user''], attrs = []\<rparr> example_page"
    by code_simp
  have src: "utf16 ''Hello, how are you today please respond'' =
           (if isUser 2 \<lparr>ident = 2, tag = ''div'', classes = [''message'', ''user''], attrs = []\<rparr> example_page
            then trim (textContent (Elem \<lparr>ident = 2, tag = ''div'', classes = [''message'', ''user''], attrs = []\<rparr>
                [Elem \<lparr>ident = 3, tag = ''p'', classes = [], attrs = []\<rparr>
                   [Text (utf16 ''Hello, how are you today please respond'')]]))
            else (case List.find (\<lambda>(e, c). getAttribute ''id'' e = Some ''response-content-container'')
                         (elems (Elem \<lparr>ident = 2, tag = ''div'', classes = [''message'', ''user''], attrs = []\<rparr>
                [Elem \<lparr>ident = 3, tag = ''p'', classes = [], attrs = []\<rparr>
                   [Text (utf16 ''Hello, how are you today please respond'')]])) of
                    None \<Rightarrow> []
                  | Some (r, rcs) \<Rightarrow> trim (textContent (Elem r rcs))))"
    by code_simp
  have t: "take 150 (utf16 ''Hello, how are you today please respond'') @
           (if 150 < length (utf16 ''Hello, how are you today please respond'') then utf16 ''...'' else []) =
           utf16 ''Hello, how are you today please respond''"
    by code_simp
  from C6_preview_text [OF w s u l p src] w u p i show ?thesis
    unfolding t by (intro conjI)
qed

section \<open>The classifier\<close>







section \<open>The global toggle button\<close>

lemma find_append_cases:
  "List.find P (xs @ ys) = (case List.find P xs of None \<Rightarrow> List.find P ys | Some x \<Rightarrow> Some x)"
  by (induction xs) auto

lemma find_elems_upd_self:
  assumes F: "\<And>e cs. ident e = x \<Longrightarrow> F e cs = Elem (g e cs) (h e cs) \<and> ident (g e cs) = x"
  shows "List.find (\<lambda>(e, c). ident e = x) (elems (upd x F t)) =
         map_option (\<lambda>(e, cs). (g e cs, h e cs)) (List.find (\<lambda>(e, c). ident e = x) (elems t))"
proof (induction t)
  case (Text s)
  show ?case by simp
next
  case (Elem e0 cs0)
  have list: "List.find (\<lambda>(e, c). ident e = x) (concat (map (\<lambda>c. elems (upd x F c)) cs)) =
     map_option (\<lambda>(e, cs). (g e cs, h e cs))
       (List.find (\<lambda>(e, c). ident e = x) (concat (map elems cs)))"
    if "set cs \<subseteq> set cs0" for cs
    using that
  proof (induction cs)
    case Nil
    show ?case by simp
  next
    case (Cons c cs)
    then have c: "c \<in> set cs0" and "set cs \<subseteq> set cs0" by auto
    with Cons.IH Elem.IH [OF c] show ?case
      by (simp add: find_append_cases split: option.splits)
  qed
  show ?case
    using list [of cs0] F [of e0 cs0] by (simp add: comp_def)
qed

lemma find_descendants_upd_self:
  assumes F: "\<And>e cs. ident e = x \<Longrightarrow> F e cs = Elem (g e cs) (h e cs) \<and> ident (g e cs) = x"
  shows "List.find (\<lambda>(e, c). ident e = x) (descendants (map (upd x F) ts)) =
         map_option (\<lambda>(e, cs). (g e cs, h e cs))
           (List.find (\<lambda>(e, c). ident e = x) (descendants ts))"
  unfolding descendants_def
  by (induction ts)
    (simp_all add: find_append_cases find_elems_upd_self [of x F g h, OF F] split: option.splits)

lemma subtree_update_self:
  assumes "subtree x st = Some (e, cs)"
    and "\<And>e cs. ident e = x \<Longrightarrow> F e cs = Elem (g e cs) (h e cs) \<and> ident (g e cs) = x"
  shows "subtree x (update x F st) = Some (g e cs, h e cs)"
  using assms(1)
  by (simp add: subtree_def update_map_trees find_descendants_upd_self [of x F g h, OF assms(2)])

definition preferred_container :: "state \<Rightarrow> (edata \<times> node list) option" where
  "preferred_container st =
     (case querySelector [[TagIs ''header'']] [document st] of
        Some c \<Rightarrow> Some c
      | None \<Rightarrow>
     (case querySelector [[ClassContains ''header'']] [document st] of
        Some c \<Rightarrow> Some c
      | None \<Rightarrow>
     (case querySelector [[TagIs ''nav'']] [document st] of
        Some c \<Rightarrow> Some c
      | None \<Rightarrow>
     (case querySelector [[TagIs ''main'']] [document st] of
        Some c \<Rightarrow> Some c
      | None \<Rightarrow> document_body st))))"

lemma find_possibleContainers:
  "List.find (\<lambda>el. el \<noteq> None) (possibleContainers st) =
     (case preferred_container st of None \<Rightarrow> None | Some c \<Rightarrow> Some (Some c))"
proof -
  have step: "List.find (\<lambda>el. el \<noteq> None) (x # xs) =
              (case x of Some c \<Rightarrow> Some (Some c) | None \<Rightarrow> List.find (\<lambda>el. el \<noteq> None) xs)"
    for x :: "(edata \<times> node list) option" and xs
    by (cases x) simp_all
  show ?thesis
    unfolding possibleContainers_def preferred_container_def step
    by (simp split: option.splits)
qed



lemma querySelector_document:
  "querySelector sel [document st] = Some (c, ccs) \<Longrightarrow> (c, ccs) \<in> set (descendants (trees st))"
  by (auto simp: querySelector_def descendants_def trees_def dest!: find_Some_mem)

lemma child_elements_mem: "(c, ccs) \<in> set (child_elements cs) \<Longrightarrow> Elem c ccs \<in> set cs"
  by (induction cs) (auto simp: child_elements_def split: node.splits)

lemma document_body_Some:
  "document_body st = Some b \<Longrightarrow>
   \<exists>r cs. document st = Elem r cs \<and> b \<in> set (child_elements cs)"
  unfolding document_body_def
  by (cases "document st") (auto split: if_splits dest: find_Some_mem)

lemma elems_tree_descendants: "t \<in> set (trees st) \<Longrightarrow> set (elems t) \<subseteq> set (descendants (trees st))"
  by (auto simp: descendants_def)

lemma document_in_trees: "document st \<in> set (trees st)"
  by (simp add: trees_def)

lemma document_body_mem:
  assumes "document_body st = Some (c, ccs)"
  shows "(c, ccs) \<in> set (descendants (trees st))"
proof -
  from document_body_Some [OF assms] obtain r cs where
    r: "document st = Elem r cs" and "(c, ccs) \<in> set (child_elements cs)" by blast
  then have "Elem c ccs \<in> set cs" by (simp add: child_elements_mem)
  then have "(c, ccs) \<in> set (elems (Elem r cs))"
    using child_in_elems [of r cs "Elem r cs" c ccs] by simp
  then have "(c, ccs) \<in> set (elems (document st))" by (simp only: r)
  with elems_tree_descendants [OF document_in_trees] show ?thesis by blast
qed

lemma preferred_container_mem:
  assumes "preferred_container st = Some (c, ccs)"
  shows "(c, ccs) \<in> set (descendants (trees st))"
proof (cases "querySelector [[TagIs ''header'']] [document st]")
  case (Some a)
  with assms show ?thesis
    by (simp add: preferred_container_def querySelector_document)
next
  case n1: None
  show ?thesis
  proof (cases "querySelector [[ClassContains ''header'']] [document st]")
    case (Some a)
    with assms n1 show ?thesis
      by (simp add: preferred_container_def querySelector_document)
  next
    case n2: None
    show ?thesis
    proof (cases "querySelector [[TagIs ''nav'']] [document st]")
      case (Some a)
      with assms n1 n2 show ?thesis
        by (simp add: preferred_container_def querySelector_document)
    next
      case n3: None
      show ?thesis
      proof (cases "querySelector [[TagIs ''main'']] [document st]")
        case (Some a)
        with assms n1 n2 n3 show ?thesis
          by (simp add: preferred_container_def querySelector_document)
      next
        case n4: None
        with assms n1 n2 n3 show ?thesis
          by (simp add: preferred_container_def document_body_mem)
      qed
    qed
  qed
qed

lemma insertCollapseAllButton_preferred:
  "insertCollapseAllButton st =
     (if getElementById ''collapse-all-btn'' st \<noteq> None then st
      else (case preferred_container st of
              None \<Rightarrow> st
            | Some (container, ccs) \<Rightarrow>
                if tag container = ''header'' \<or> tag container = ''nav''
                then update (ident container)
                       (\<lambda>e cs. Elem e (cs @ [createCollapseAllButton (fresh st)])) st
                else update (ident container)
                       (\<lambda>e cs. Elem e (createCollapseAllButton (fresh st) # cs)) st))"
  unfolding insertCollapseAllButton_def find_possibleContainers appendChild_def Let_def
  by (simp split: option.splits)

text \<open>
  Claim C9: insertion of the global toggle button.  When an element with id
  \<open>collapse-all-btn\<close> exists, \<open>insertCollapseAllButton\<close> changes nothing.  Otherwise the button
  goes into the first container found in this order: the first \<open>header\<close> element, else the
  first element whose class contains \<open>header\<close>, else the first \<open>nav\<close> element, else the first
  \<open>main\<close> element, else the document body (appended to a \<open>header\<close> or \<open>nav\<close> element, put
  first in any other container); with no container at all nothing changes.
\<close>

theorem C9_button_insertion:
  assumes "wf st"
  shows "(getElementById ''collapse-all-btn'' st \<noteq> None \<longrightarrow> insertCollapseAllButton st = st) \<and>
         (getElementById ''collapse-all-btn'' st = None \<longrightarrow>
            (case preferred_container st of
               None \<Rightarrow> insertCollapseAllButton st = st
             | Some (c, ccs) \<Rightarrow>
                 subtree (ident c) (insertCollapseAllButton st) =
                   Some (c, if tag c = ''header'' \<or> tag c = ''nav''
                            then ccs @ [createCollapseAllButton (fresh st)]
                            else createCollapseAllButton (fresh st) # ccs)))"
proof (intro conjI impI)
  assume "getElementById ''collapse-all-btn'' st \<noteq> None"
  then show "insertCollapseAllButton st = st"
    by (simp add: insertCollapseAllButton_def)
next
  assume none: "getElementById ''collapse-all-btn'' st = None"
  show "case preferred_container st of
               None \<Rightarrow> insertCollapseAllButton st = st
             | Some (c, ccs) \<Rightarrow>
                 subtree (ident c) (insertCollapseAllButton st) =
                   Some (c, if tag c = ''header'' \<or> tag c = ''nav''
                            then ccs @ [createCollapseAllButton (fresh st)]
                            else createCollapseAllButton (fresh st) # ccs)"
  proof (cases "preferred_container st")
    case None
    then show ?thesis using none
      by (simp add: insertCollapseAllButton_preferred)
  next
    case (Some cc)
    obtain c ccs where cc: "cc = (c, ccs)" by (cases cc)
    have sub: "subtree (ident c) st = Some (c, ccs)"
      using subtree_unique [OF assms preferred_container_mem] Some cc by simp
    have a: "subtree (ident c) (update (ident c)
                (\<lambda>e cs. Elem e (cs @ [createCollapseAllButton (fresh st)])) st) =
             Some (c, ccs @ [createCollapseAllButton (fresh st)])"
      by (rule subtree_update_self [OF sub, where g = "\<lambda>e cs. e"]) simp
    have b: "subtree (ident c) (update (ident c)
                (\<lambda>e cs. Elem e (createCollapseAllButton (fresh st) # cs)) st) =
             Some (c, createCollapseAllButton (fresh st) # ccs)"
      by (rule subtree_update_self [OF sub, where g = "\<lambda>e cs. e"]) simp
    show ?thesis
      using Some cc none a b
      by (simp add: insertCollapseAllButton_preferred)
  qed
qed

theorem C9_button_insertion_witness:
  "wf layout_page \<and>
   getElementById ''collapse-all-btn'' layout_page = None \<and>
   preferred_container layout_page =
     Some (\<lparr>ident = 4, tag = ''div'', classes = [''page-header''], attrs = []\<rparr>, []) \<and>
   subtree 4 (insertCollapseAllButton layout_page) =
     Some (\<lparr>ident = 4, tag = ''div'', classes = [''page-header''], attrs = []\<rparr>,
           [createCollapseAllButton 5]) \<and>
   wf (insertCollapseAllButton layout_page) \<and>
   getElementById ''collapse-all-btn'' (insertCollapseAllButton layout_page) \<noteq> None \<and>
   insertCollapseAllButton (insertCollapseAllButton layout_page) = insertCollapseAllButton layout_page"
proof -
  have w: "wf layout_page" by code_simp
  have g: "getElementById ''collapse-all-btn'' layout_page = None" by code_simp
  have p: "preferred_container layout_page =
     Some (\<lparr>ident = 4, tag = ''div'', classes = [''page-header''], attrs = []\<rparr>, [])" by code_simp
  have f: "fresh layout_page = 5" by code_simp
  have w2: "wf (insertCollapseAllButton layout_page)" by code_simp
  have g2: "getElementById ''collapse-all-btn'' (insertCollapseAllButton layout_page) \<noteq> None"
    by code_simp
  have a: "subtree 4 (insertCollapseAllButton layout_page) =
     Some (\<lparr>ident = 4, tag = ''div'', classes = [''page-header''], attrs = []\<rparr>,
           [createCollapseAllButton 5])"
    using C9_button_insertion [OF w] g p f by simp
  have b: "insertCollapseAllButton (insertCollapseAllButton layout_page) =
           insertCollapseAllButton layout_page"
    using C9_button_insertion [OF w2] g2 by simp
  show ?thesis using w g p a w2 g2 b by (intro conjI)
qed

section \<open>Idempotence of the scan\<close>

definition acceptable :: "edata \<Rightarrow> node list \<Rightarrow> bool" where
  "acceptable me mcs =
     (20 \<le> length (trim (textContent (Elem me mcs))) \<and>
      (querySelector structureSel mcs \<noteq> None \<or> 50 < length (trim (textContent (Elem me mcs)))))"

definition rejected :: "nat \<Rightarrow> state \<Rightarrow> bool" where
  "rejected x st =
     (case subtree x st of
        None \<Rightarrow> True
      | Some (e, cs) \<Rightarrow> inside_wrapper x st \<or> \<not> acceptable e cs)"

lemma rejected_returns: "rejected x st \<Longrightarrow> process_message x st = Returned st"
  unfolding rejected_def process_message_def acceptable_def Let_def
  by (auto simp: closest_wrapper_None split: option.splits)

lemma dropWhile_keeps:
  assumes "\<not> P c"
  shows "\<exists>p. dropWhile P (a @ c # r) = p @ c # r"
proof (induction a)
  case Nil
  show ?case using assms by simp
next
  case (Cons x a)
  then show ?case by (cases "P x") (auto intro: exI [of _ "x # a"])
qed

lemma trim_length_mono: "length (trim s) \<le> length (trim (a @ s @ b))"
proof (cases "trim s")
  case Nil
  then show ?thesis by simp
next
  case (Cons c r)
  define d where "d = dropWhile isWhiteSpace s"
  have ts: "trim s = rev (dropWhile isWhiteSpace (rev d))" by (simp add: trim_def d_def)
  have d_ne: "d \<noteq> []" using Cons ts by auto
  then obtain c1 r1 where d: "d = c1 # r1" by (cases d) auto
  have c1: "\<not> isWhiteSpace c1" using d d_def by (metis hd_dropWhile list.sel(1) list.distinct(1))
  obtain w where s: "s = w @ d" unfolding d_def by (metis takeWhile_dropWhile_id)
  from dropWhile_keeps [of isWhiteSpace c1 "a @ w" "r1 @ b"] c1 obtain p where
    p: "dropWhile isWhiteSpace (a @ s @ b) = p @ d @ b" unfolding s d by auto
  define e where "e = dropWhile isWhiteSpace (rev d)"
  have e_ne: "e \<noteq> []" using Cons ts e_def by auto
  then obtain c2 r2 where e: "e = c2 # r2" by (cases e) auto
  have c2: "\<not> isWhiteSpace c2" using e e_def by (metis hd_dropWhile list.sel(1) list.distinct(1))
  obtain v where rd: "rev d = v @ e" unfolding e_def by (metis takeWhile_dropWhile_id)
  have "rev (p @ d @ b) = (rev b @ v) @ c2 # (r2 @ rev p)" using rd e by simp
  with dropWhile_keeps [of isWhiteSpace c2 "rev b @ v" "r2 @ rev p"] c2 obtain q where
    "dropWhile isWhiteSpace (rev (p @ d @ b)) = q @ e @ rev p" using e by auto
  then have "length (trim (a @ s @ b)) = length q + length e + length p"
    by (simp add: trim_def p)
  moreover have "length (trim s) = length e" by (simp add: ts e_def)
  ultimately show ?thesis by simp
qed

lemma textContent_infix:
  "(e, cs) \<in> set (elems t) \<Longrightarrow> \<exists>a b. textContent t = a @ textContent (Elem e cs) @ b"
proof (induction t)
  case (Text x)
  then show ?case by simp
next
  case (Elem e0 cs0)
  show ?case
  proof (cases "(e, cs) = (e0, cs0)")
    case True
    then show ?thesis by (auto intro: exI [of _ "[]"])
  next
    case False
    with Elem.prems obtain c where c: "c \<in> set cs0" "(e, cs) \<in> set (elems c)" by auto
    from Elem.IH [OF c] obtain a b where ab: "textContent c = a @ textContent (Elem e cs) @ b"
      by blast
    from c(1) obtain pre post where "cs0 = pre @ c # post" by (auto dest: split_list)
    then have "textContent (Elem e0 cs0) =
               (concat (map textContent pre) @ a) @ textContent (Elem e cs) @
               (b @ concat (map textContent post))"
      using ab by simp
    then show ?thesis by blast
  qed
qed

lemma textContent_descendant:
  assumes "(e', cs') \<in> set (descendants cs)"
  shows "length (trim (textContent (Elem e' cs'))) \<le> length (trim (textContent (Elem e cs)))"
proof -
  have "(e', cs') \<in> set (elems (Elem e cs))" using assms by (simp add: descendants_def)
  from textContent_infix [OF this] obtain a b where
    "textContent (Elem e cs) = a @ textContent (Elem e' cs') @ b" by blast
  then show ?thesis using trim_length_mono by metis
qed

lemma descendants_trans:
  assumes "(e', cs') \<in> set (descendants cs)"
  shows "set (descendants cs') \<subseteq> set (descendants cs)"
proof -
  from assms obtain c where c: "c \<in> set cs" "(e', cs') \<in> set (elems c)"
    by (auto simp: descendants_def)
  have "set (descendants cs') \<subseteq> set (elems (Elem e' cs'))" by (auto simp: descendants_def)
  also have "\<dots> \<subseteq> set (elems c)" by (rule elems_trans [OF c(2)])
  also have "\<dots> \<subseteq> set (descendants cs)" using c(1) by (auto simp: descendants_def)
  finally show ?thesis .
qed

lemma acceptable_ancestor:
  assumes "(e', cs') \<in> set (descendants cs)" "acceptable e' cs'"
  shows "acceptable e cs"
proof -
  have len: "length (trim (textContent (Elem e' cs'))) \<le> length (trim (textContent (Elem e cs)))"
    by (rule textContent_descendant [OF assms(1)])
  have "querySelector structureSel cs' \<noteq> None \<Longrightarrow> querySelector structureSel cs \<noteq> None"
    using descendants_trans [OF assms(1)]
    by (auto simp: querySelector_def find_None_iff)
  with assms(2) len show ?thesis unfolding acceptable_def by auto
qed

lemma nonempty_superset: "xs \<noteq> [] \<Longrightarrow> set xs \<subseteq> set ys \<Longrightarrow> ys \<noteq> []"
  by (cases xs) auto

lemma ancestry_upd_wrap_mono:
  assumes "x \<notin> set (new_ids n)"
  shows "set (ancestry x t) \<subseteq> set (ancestry x (upd y (wrap n wc s) t))"
proof (induction t)
  case (Text z)
  show ?case by simp
next
  case (Elem e cs)
  show ?case
  proof (cases "ident e = y")
    case True
    then have u: "upd y (wrap n wc s) (Elem e cs) = wrap n wc s e cs" by simp
    show ?thesis
      unfolding u ancestry_wrap [OF assms]
      by (cases "ancestry x (Elem e cs) = []") (simp_all del: ancestry.simps add: subset_insertI2)
  next
    case False
    let ?C = "concat (map (ancestry x) cs)"
    let ?C' = "concat (map (ancestry x) (map (upd y (wrap n wc s)) cs))"
    have u: "upd y (wrap n wc s) (Elem e cs) = Elem e (map (upd y (wrap n wc s)) cs)"
      using False by simp
    have sub: "set ?C \<subseteq> set ?C'" using Elem.IH by auto
    have ne: "?C' \<noteq> []" if "?C \<noteq> []"
      by (rule nonempty_superset [OF that sub])
    show ?thesis
    proof (cases "ident e = x")
      case True
      then show ?thesis unfolding u by simp
    next
      case F2: False
      show ?thesis
      proof (cases "?C = []")
        case True
        then have "ancestry x (Elem e cs) = []" using F2 by simp
        then show ?thesis by simp
      next
        case F3: False
        then have a: "ancestry x (Elem e cs) = ?C @ [e]" using F2 by simp
        have b: "ancestry x (Elem e (map (upd y (wrap n wc s)) cs)) = ?C' @ [e]"
          using F2 ne [OF F3] by simp
        show ?thesis unfolding u a b using sub by auto
      qed
    qed
  qed
qed

lemma ancestors_update_wrap_mono:
  assumes "x \<notin> set (new_ids n)" "a \<in> set (ancestors x st)"
  shows "a \<in> set (ancestors x (update y (wrap n wc s) st))"
proof -
  from assms(2) obtain t where t: "t \<in> set (trees st)" "a \<in> set (ancestry x t)"
    by (auto simp: ancestors_def)
  then have "a \<in> set (ancestry x (upd y (wrap n wc s) t))"
    using ancestry_upd_wrap_mono [OF assms(1)] by blast
  with t(1) show ?thesis
    unfolding ancestors_def update_map_trees trees_map_trees by auto
qed

lemma inside_wrapper_mono:
  assumes "x \<notin> set (new_ids n)" "inside_wrapper x st"
  shows "inside_wrapper x (update y (wrap n wc s) st)"
proof -
  from assms(2) obtain a where "a \<in> set (ancestors x st)" "''message-wrapper'' \<in> set (classes a)"
    by (auto simp: inside_wrapper_def list_ex_iff)
  with ancestors_update_wrap_mono [OF assms(1)] show ?thesis
    unfolding inside_wrapper_def list_ex_iff by blast
qed

lemma new_in_ancestry:
  assumes "z \<in> set (new_ids n)" "z \<notin> set (ids t)" "y \<in> set (ids t)"
  shows "\<lparr>ident = n, tag = ''div'', classes = wc, attrs = []\<rparr>
           \<in> set (ancestry z (upd y (wrap n wc s) t))"
  using assms(2,3)
proof (induction t)
  case (Text x)
  then show ?case by simp
next
  case (Elem e cs)
  let ?wd = "\<lparr>ident = n, tag = ''div'', classes = wc, attrs = []\<rparr>"
  show ?case
  proof (cases "ident e = y")
    case True
    have "z \<in> set (ids (wrap n wc s e cs))" using assms(1) by (auto simp: new_ids_def)
    then have ne: "ancestry z (wrap n wc s e cs) \<noteq> []" by (simp add: ancestry_empty_iff)
    have "\<exists>k. wrap n wc s e cs = Elem ?wd k" by (simp add: wrap_def)
    then obtain k where k: "wrap n wc s e cs = Elem ?wd k" by blast
    from ne have "last (ancestry z (Elem ?wd k)) = ?wd"
      unfolding k by (rule ancestry_last)
    with ne have "?wd \<in> set (ancestry z (wrap n wc s e cs))"
      unfolding k by (metis last_in_set)
    with True show ?thesis by simp
  next
    case False
    with Elem.prems obtain c where c: "c \<in> set cs" "y \<in> set (ids c)" by auto
    have "z \<notin> set (ids c)" using Elem.prems(1) c(1) by auto
    from Elem.IH [OF c(1) this c(2)] have "?wd \<in> set (ancestry z (upd y (wrap n wc s) c))" .
    then have mem: "?wd \<in> set (concat (map (\<lambda>c. ancestry z (upd y (wrap n wc s) c)) cs))"
      using c(1) by auto
    then have "concat (map (\<lambda>c. ancestry z (upd y (wrap n wc s) c)) cs) \<noteq> []"
      by (metis empty_iff empty_set)
    moreover have "ident e \<noteq> z" using Elem.prems(1) by auto
    ultimately show ?thesis using False mem
      by (simp add: comp_def del: concat_eq_Nil_conv set_concat)
  qed
qed

lemma new_inside_wrapper:
  assumes "wf st" "z \<in> set (new_ids n)" "fresh st \<le> n" "y \<in> set (all_ids st)"
    "''message-wrapper'' \<in> set wc"
  shows "inside_wrapper z (update y (wrap n wc s) st)"
proof -
  have z: "z \<notin> set (all_ids st)"
    using fresh_gt [of z st] assms(2,3) by (auto simp: new_ids_def)
  from assms(4) obtain t where t: "t \<in> set (trees st)" "y \<in> set (ids t)"
    by (auto simp: all_ids_def)
  have "z \<notin> set (ids t)" using z t(1) by (auto simp: all_ids_def)
  from new_in_ancestry [OF assms(2) this t(2)]
  have "\<lparr>ident = n, tag = ''div'', classes = wc, attrs = []\<rparr>
          \<in> set (ancestors z (update y (wrap n wc s) st))"
    using t(1) by (auto simp: ancestors_def update_map_trees)
  then show ?thesis using assms(5)
    by (force simp: inside_wrapper_def list_ex_iff)
qed

lemma addToggleToMessage_NoParent:
  "parentNode m st = NoParent \<Longrightarrow> addToggleToMessage m st = Returned st"
  unfolding addToggleToMessage_def Let_def
  by (simp split: option.splits)

text \<open>What one call of the callback can do.\<close>

lemma process_message_cases:
  assumes "wf st"
  shows "process_message y st = Returned st \<or>
         process_message y st = Thrown HierarchyRequestError st \<and>
           parentNode y st = DocumentNode \<or>
         (\<exists>me mcs wc s p. subtree y st = Some (me, mcs) \<and> \<not> inside_wrapper y st \<and>
            acceptable me mcs \<and> ''message-wrapper'' \<in> set wc \<and>
            parentNode y st = ParentElement p \<and>
            process_message y st = Returned (update y (wrap (fresh st) wc s) st))"
proof (cases "rejected y st")
  case True
  then show ?thesis by (simp add: rejected_returns)
next
  case False
  then obtain me mcs where sub: "subtree y st = Some (me, mcs)"
    and unw: "\<not> inside_wrapper y st" and acc: "acceptable me mcs"
    by (auto simp: rejected_def split: option.splits)
  have len: "20 \<le> length (trim (textContent (Elem me mcs)))" using acc by (simp add: acceptable_def)
  have pm: "process_message y st = addToggleToMessage y st"
    using sub unw acc unfolding process_message_def acceptable_def Let_def
    by (auto simp: closest_wrapper_None)
  show ?thesis
  proof (cases "parentNode y st")
    case NoParent
    then show ?thesis using pm by (simp add: addToggleToMessage_NoParent)
  next
    case DocumentNode
    then have "addToggleToMessage y st = Thrown HierarchyRequestError st"
      using sub unw len unfolding addToggleToMessage_def Let_def
      by (simp add: closest_wrapper_None)
    with pm DocumentNode show ?thesis by simp
  next
    case (ParentElement p)
    from addToggle_effect [OF assms sub _ len ParentElement] unw
    have eff: "addToggleToMessage y st =
          Returned (update y (wrap (fresh st) (wrapper_classes y me st)
                                (ellipsize (preview_source y me mcs st))) st)"
      by (simp add: closest_wrapper_None)
    have cls: "''message-wrapper'' \<in> set (wrapper_classes y me st)"
      by (simp add: wrapper_classes_def)
    have "\<exists>me mcs wc s p. subtree y st = Some (me, mcs) \<and> \<not> inside_wrapper y st \<and>
            acceptable me mcs \<and> ''message-wrapper'' \<in> set wc \<and>
            parentNode y st = ParentElement p \<and>
            process_message y st = Returned (update y (wrap (fresh st) wc s) st)"
      using sub unw acc cls eff pm ParentElement by (intro exI conjI) (assumption | simp)+
    then show ?thesis by blast
  qed
qed

lemma subtree_exists: "x \<in> set (all_ids st) \<Longrightarrow> \<exists>e cs. subtree x st = Some (e, cs)"
proof -
  assume "x \<in> set (all_ids st)"
  then obtain e cs where "(e, cs) \<in> set (descendants (trees st))" "ident e = x"
    by (auto simp: all_ids_descendants)
  then have "List.find (\<lambda>(e, cs). ident e = x) (descendants (trees st)) \<noteq> None"
    by (auto simp: find_None_iff)
  then show ?thesis by (auto simp: subtree_def)
qed

lemma subtree_in_all_ids: "subtree x st = Some (e, cs) \<Longrightarrow> x \<in> set (all_ids st)"
  using subtree_Some [of x st e cs] by (force simp: all_ids_descendants)

lemma new_ids_fresh: "z \<in> set (new_ids n) \<Longrightarrow> fresh st \<le> n \<Longrightarrow> z \<notin> set (all_ids st)"
  using fresh_gt [of z st] by (auto simp: new_ids_def)

lemma parentNode_in_document:
  assumes "wf st" "y \<in> set (ids (document st))"
  shows "parentNode y st \<noteq> NoParent"
proof -
  have a: "ancestors y st = ancestry y (document st)"
    by (rule ancestors_tree [OF assms(1) document_in_trees assms(2)])
  have ne: "ancestry y (document st) \<noteq> []" using assms(2) by (simp add: ancestry_empty_iff)
  show ?thesis
  proof (cases "ancestry y (document st)")
    case Nil
    with ne show ?thesis by simp
  next
    case (Cons e r)
    show ?thesis
    proof (cases r)
      case Nil
      with Cons have "ancestry y (document st) = [e]" by simp
      from ancestry_singleton [OF this] obtain k where "document st = Elem e k" "ident e = y"
        by blast
      then show ?thesis using a Cons Nil by (simp add: parentNode_def)
    next
      case (Cons p r')
      then show ?thesis using a \<open>ancestry y (document st) = e # r\<close> by (simp add: parentNode_def)
    qed
  qed
qed

lemma update_wrap_changes:
  assumes "wf st" "y \<in> set (all_ids st)" "fresh st \<le> n"
  shows "update y (wrap n wc s) st \<noteq> st"
proof
  assume eq: "update y (wrap n wc s) st = st"
  have "n \<in> set (concat (map (with_new n y) (all_ids st)))"
    using assms(2) by (auto simp: new_ids_def intro!: bexI [of _ y])
  then have "n \<in> set (all_ids (update y (wrap n wc s) st))"
    by (simp only: all_ids_update_wrap [OF assms(1)])
  with eq have "n \<in> set (all_ids st)" by simp
  moreover have "n \<notin> set (all_ids st)" using fresh_gt [of n st] assms(3) by auto
  ultimately show False by simp
qed

lemma returned_same_rejected:
  assumes "wf st" "y \<in> set (ids (document st))" "process_message y st = Returned st"
  shows "rejected y st"
proof -
  have yin: "y \<in> set (all_ids st)" using assms(2) ids_tree_subset [OF document_in_trees] by blast
  from process_message_cases [OF assms(1), of y] assms(3)
  consider "rejected y st"
    | me mcs wc s where "subtree y st = Some (me, mcs)" "\<not> inside_wrapper y st" "acceptable me mcs"
        "Returned st = Returned (update y (wrap (fresh st) wc s) st)"
    | "\<not> rejected y st" "process_message y st = Returned st"
    by (cases "rejected y st") auto
  then show ?thesis
  proof cases
    case 1
    then show ?thesis .
  next
    case 2
    then have "update y (wrap (fresh st) wc s) st = st" by simp
    with update_wrap_changes [OF assms(1) yin order_refl] show ?thesis by blast
  next
    case 3
    then obtain me mcs where sub: "subtree y st = Some (me, mcs)"
      and unw: "\<not> inside_wrapper y st" and acc: "acceptable me mcs"
      by (auto simp: rejected_def split: option.splits)
    have len: "20 \<le> length (trim (textContent (Elem me mcs)))" using acc by (simp add: acceptable_def)
    have pm: "process_message y st = addToggleToMessage y st"
      using sub unw acc unfolding process_message_def acceptable_def Let_def
      by (auto simp: closest_wrapper_None)
    show ?thesis
    proof (cases "parentNode y st")
      case NoParent
      with parentNode_in_document [OF assms(1,2)] show ?thesis by simp
    next
      case DocumentNode
      then have "addToggleToMessage y st = Thrown HierarchyRequestError st"
        using sub unw len unfolding addToggleToMessage_def Let_def
        by (simp add: closest_wrapper_None)
      with pm assms(3) show ?thesis by simp
    next
      case (ParentElement p)
      from addToggle_effect [OF assms(1) sub _ len ParentElement] unw
      have "addToggleToMessage y st =
            Returned (update y (wrap (fresh st) (wrapper_classes y me st)
                                  (ellipsize (preview_source y me mcs st))) st)"
        by (simp add: closest_wrapper_None)
      with pm assms(3) have "update y (wrap (fresh st) (wrapper_classes y me st)
                                  (ellipsize (preview_source y me mcs st))) st = st" by simp
      with update_wrap_changes [OF assms(1) yin order_refl] show ?thesis by blast
    qed
  qed
qed

lemma rejected_preserved:
  assumes wf: "wf st" and x: "x \<in> set (all_ids st)" and rej: "rejected x st" and xy: "x \<noteq> y"
    and suby: "subtree y st = Some (me, mcs)" and acc: "acceptable me mcs"
    and n: "fresh st \<le> n"
  shows "rejected x (update y (wrap n wc s) st)"
proof -
  from subtree_exists [OF x] obtain e cs where sub: "subtree x st = Some (e, cs)" by blast
  have sub': "subtree x (update y (wrap n wc s) st) = Some (e, map (upd y (wrap n wc s)) cs)"
    by (rule subtree_update_wrap [OF wf n sub xy])
  have xnew: "x \<notin> set (new_ids n)" using new_ids_fresh [OF _ n] x by blast
  from rej sub consider "inside_wrapper x st" | "\<not> acceptable e cs"
    by (auto simp: rejected_def)
  then show ?thesis
  proof cases
    case 1
    from inside_wrapper_mono [OF xnew 1] show ?thesis
      by (simp add: rejected_def sub')
  next
    case 2
    have "y \<notin> set (concat (map ids cs))"
    proof
      assume "y \<in> set (concat (map ids cs))"
      then obtain ey csy where d: "(ey, csy) \<in> set (descendants cs)" and ey: "ident ey = y"
        unfolding ids_descendants [symmetric] by auto
      from subtree_Some [OF sub] have "(e, cs) \<in> set (descendants (trees st))" by simp
      then obtain t where t: "t \<in> set (trees st)" "(e, cs) \<in> set (elems t)"
        by (auto simp: descendants_trees)
      have "(ey, csy) \<in> set (elems (Elem e cs))" using d by (simp add: descendants_def)
      with elems_trans [OF t(2)] have "(ey, csy) \<in> set (elems t)" by blast
      with t(1) have "(ey, csy) \<in> set (descendants (trees st))" by (auto simp: descendants_trees)
      from subtree_unique [OF wf this] ey suby have "ey = me" "csy = mcs" by auto
      with d acc have "acceptable e cs" using acceptable_ancestor by blast
      with 2 show False by simp
    qed
    then have "map (upd y (wrap n wc s)) cs = cs" by (rule upd_absent_list)
    with 2 show ?thesis by (simp add: rejected_def sub')
  qed
qed

lemma elems_upd_wrap_origin:
  assumes "(e, cs) \<in> set (elems (upd y (wrap n wc s) t))" "ident e \<notin> set (new_ids n)"
  shows "\<exists>cs0. (e, cs0) \<in> set (elems t)"
  using assms(1)
proof (induction t)
  case (Text x)
  then show ?case by simp
next
  case (Elem e0 cs0)
  show ?case
  proof (cases "ident e0 = y")
    case True
    with Elem.prems have "(e, cs) \<in> set (elems (wrap n wc s e0 cs0))" by simp
    then have "ident e \<in> set (new_ids n) \<or> (e, cs) \<in> set (elems (Elem e0 cs0))"
      unfolding wrap_def createCollapseColumn_def chevron_def new_ids_def text_children_def
      by (auto simp: numeral_eq_Suc split: if_splits)
    with assms(2) show ?thesis by blast
  next
    case False
    with Elem.prems have "(e, cs) = (e0, map (upd y (wrap n wc s)) cs0) \<or>
       (\<exists>c\<in>set cs0. (e, cs) \<in> set (elems (upd y (wrap n wc s) c)))" by auto
    then show ?thesis
    proof
      assume "(e, cs) = (e0, map (upd y (wrap n wc s)) cs0)"
      then show ?thesis by auto
    next
      assume "\<exists>c\<in>set cs0. (e, cs) \<in> set (elems (upd y (wrap n wc s) c))"
      then obtain c where c: "c \<in> set cs0" "(e, cs) \<in> set (elems (upd y (wrap n wc s) c))" by blast
      from Elem.IH [OF c] obtain k where "(e, k) \<in> set (elems c)" by blast
      with c(1) show ?thesis by auto
    qed
  qed
qed

definition scan_inv :: "state \<Rightarrow> nat set \<Rightarrow> state \<Rightarrow> bool" where
  "scan_inv st0 P st =
     (wf st \<and> P \<subseteq> set (all_ids st0) \<and> set (all_ids st0) \<subseteq> set (all_ids st) \<and>
      set (ids (document st0)) \<subseteq> set (ids (document st)) \<and>
      (\<forall>x\<in>P. rejected x st) \<and>
      (\<forall>z\<in>set (all_ids st). z \<notin> set (all_ids st0) \<longrightarrow> rejected z st) \<and>
      (\<forall>(e, cs)\<in>set (elems (document st)).
          ident e \<in> set (all_ids st0) \<longrightarrow> (\<exists>cs0. (e, cs0) \<in> set (elems (document st0)))) \<and>
      (\<forall>r k. document st = Elem r k \<longrightarrow> (\<exists>k0. document st0 = Elem r k0)))"

lemma scan_inv_initial: "wf st \<Longrightarrow> scan_inv st {} st"
  by (auto simp: scan_inv_def)

lemma set_with_new:
  "set (concat (map (with_new n y) xs)) =
   set xs \<union> (if y \<in> set xs then set (new_ids n) else {})"
  by (induction xs) (auto simp: with_new_def)

lemma inside_rejected: "inside_wrapper x st \<Longrightarrow> rejected x st"
  by (simp add: rejected_def split: option.splits)

lemma document_update [simp]: "document (update y f st) = upd y f (document st)"
  by (simp add: update_def)

lemma scan_inv_wrap:
  assumes inv: "scan_inv st0 P st" and y: "y \<in> set (ids (document st0))"
    and sub: "subtree y st = Some (me, mcs)" and unw: "\<not> inside_wrapper y st"
    and acc: "acceptable me mcs" and wc: "''message-wrapper'' \<in> set wc"
    and par: "parentNode y st = ParentElement p"
  shows "scan_inv st0 (insert y P) (update y (wrap (fresh st) wc s) st)"
proof -
  let ?n = "fresh st"
  let ?st' = "update y (wrap ?n wc s) st"
  from inv have wf: "wf st" and P: "P \<subseteq> set (all_ids st0)"
    and sub0: "set (all_ids st0) \<subseteq> set (all_ids st)"
    and doc0: "set (ids (document st0)) \<subseteq> set (ids (document st))"
    and rejP: "\<forall>x\<in>P. rejected x st"
    and rejN: "\<forall>z\<in>set (all_ids st). z \<notin> set (all_ids st0) \<longrightarrow> rejected z st"
    and orig: "\<forall>(e, cs)\<in>set (elems (document st)).
          ident e \<in> set (all_ids st0) \<longrightarrow> (\<exists>cs0. (e, cs0) \<in> set (elems (document st0)))"
    and root: "\<forall>r k. document st = Elem r k \<longrightarrow> (\<exists>k0. document st0 = Elem r k0)"
    by (auto simp: scan_inv_def)
  have y0: "y \<in> set (all_ids st0)" using y ids_tree_subset [OF document_in_trees] by blast
  have yst: "y \<in> set (all_ids st)" using y0 sub0 by blast
  have ids': "set (all_ids ?st') = set (all_ids st) \<union> set (new_ids ?n)"
    unfolding all_ids_update_wrap [OF wf] set_with_new using yst by simp
  have not_rej: "\<not> rejected y st" using sub unw acc by (simp add: rejected_def)
  have 1: "wf ?st'" by (rule wf_update_wrap [OF wf order_refl])
  have 2: "insert y P \<subseteq> set (all_ids st0)" using P y0 by simp
  have 3: "set (all_ids st0) \<subseteq> set (all_ids ?st')" using sub0 ids' by blast
  have "set (ids (document st)) \<subseteq> set (ids (document ?st'))"
    unfolding document_update ids_upd_wrap [OF wf_tree [OF wf document_in_trees]] set_with_new
    by simp
  with doc0 have 4: "set (ids (document st0)) \<subseteq> set (ids (document ?st'))" by blast
  have 5: "\<forall>x\<in>insert y P. rejected x ?st'"
  proof
    fix x assume x: "x \<in> insert y P"
    show "rejected x ?st'"
    proof (cases "x = y")
      case True
      then show ?thesis
        using inside_wrapper_after [OF yst order_refl wc] by (simp add: inside_rejected)
    next
      case False
      with x have xp: "x \<in> P" by simp
      with P sub0 have "x \<in> set (all_ids st)" by blast
      from rejected_preserved [OF wf this _ False sub acc order_refl] rejP xp
      show ?thesis by blast
    qed
  qed
  have 6: "\<forall>z\<in>set (all_ids ?st'). z \<notin> set (all_ids st0) \<longrightarrow> rejected z ?st'"
  proof (intro ballI impI)
    fix z assume z: "z \<in> set (all_ids ?st')" "z \<notin> set (all_ids st0)"
    show "rejected z ?st'"
    proof (cases "z \<in> set (all_ids st)")
      case True
      with rejN z(2) have "rejected z st" by blast
      moreover have "z \<noteq> y" using z(2) y0 by blast
      ultimately show ?thesis
        using rejected_preserved [OF wf True _ _ sub acc order_refl] by blast
    next
      case False
      with z(1) ids' have "z \<in> set (new_ids ?n)" by blast
      from new_inside_wrapper [OF wf this order_refl yst wc] show ?thesis
        by (simp add: inside_rejected)
    qed
  qed
  have 7: "\<forall>(e, cs)\<in>set (elems (document ?st')).
          ident e \<in> set (all_ids st0) \<longrightarrow> (\<exists>cs0. (e, cs0) \<in> set (elems (document st0)))"
  proof (intro ballI, clarify)
    fix e cs assume m: "(e, cs) \<in> set (elems (document ?st'))" "ident e \<in> set (all_ids st0)"
    have "ident e \<notin> set (new_ids ?n)"
      using new_ids_fresh [OF _ order_refl, of "ident e" st] m(2) sub0 by blast
    with m(1) obtain k where "(e, k) \<in> set (elems (document st))"
      using elems_upd_wrap_origin by (metis document_update)
    with orig m(2) show "\<exists>cs0. (e, cs0) \<in> set (elems (document st0))" by blast
  qed
  have 8: "\<forall>r k. document ?st' = Elem r k \<longrightarrow> (\<exists>k0. document st0 = Elem r k0)"
  proof (intro allI impI)
    fix r k assume d': "document ?st' = Elem r k"
    have yd: "y \<in> set (ids (document st))" using y doc0 by blast
    from parentNode_ParentElement [OF par] obtain a pe rest where
      "ancestors y st = a # pe # rest" by blast
    then have anc: "ancestry y (document st) = a # pe # rest"
      using ancestors_tree [OF wf document_in_trees yd] by simp
    obtain r1 k1 where d: "document st = Elem r1 k1"
      using yd by (cases "document st") auto
    have "ident r1 \<noteq> y" using anc unfolding d by (auto split: if_splits)
    then have "document ?st' = Elem r1 (map (upd y (wrap ?n wc s)) k1)" by (simp add: d)
    with d' have "r = r1" by simp
    with root d show "\<exists>k0. document st0 = Elem r k0" by blast
  qed
  show ?thesis unfolding scan_inv_def using 1 2 3 4 5 6 7 8 by (intro conjI)
qed

lemma scan_inv_step:
  assumes inv: "scan_inv st0 P st" and y: "y \<in> set (ids (document st0))"
    and run: "process_message y st = Returned st'"
  shows "scan_inv st0 (insert y P) st'"
proof -
  from inv have wf: "wf st" and doc0: "set (ids (document st0)) \<subseteq> set (ids (document st))"
    by (auto simp: scan_inv_def)
  have yd: "y \<in> set (ids (document st))" using y doc0 by blast
  from process_message_cases [OF wf, of y] run
  consider "st' = st"
    | me mcs wc s p where "subtree y st = Some (me, mcs)" "\<not> inside_wrapper y st"
        "acceptable me mcs" "''message-wrapper'' \<in> set wc"
        "parentNode y st = ParentElement p" "st' = update y (wrap (fresh st) wc s) st"
    by auto
  then show ?thesis
  proof cases
    case 1
    then have "rejected y st" using returned_same_rejected [OF wf yd] run by simp
    moreover have "y \<in> set (all_ids st0)"
      using y ids_tree_subset [OF document_in_trees] by blast
    ultimately show ?thesis using inv 1 by (auto simp: scan_inv_def)
  next
    case 2
    show ?thesis unfolding 2(6) by (rule scan_inv_wrap [OF inv y 2(1-5)])
  qed
qed

lemma scan_inv_forEach:
  assumes "scan_inv st0 P st" "set xs \<subseteq> set (ids (document st0))"
    "forEach process_message xs st = Returned st'"
  shows "scan_inv st0 (P \<union> set xs) st'"
  using assms
proof (induction xs arbitrary: P st)
  case Nil
  then show ?case by simp
next
  case (Cons x xs)
  from Cons.prems(3) obtain st1 where s1: "process_message x st = Returned st1"
    and rest: "forEach process_message xs st1 = Returned st'"
    by (auto split: outcome.splits)
  have "scan_inv st0 (insert x P) st1"
    using scan_inv_step [OF Cons.prems(1) _ s1] Cons.prems(2) by simp
  from Cons.IH [OF this _ rest] Cons.prems(2) show ?case by simp
qed

lemma forEach_rejected:
  "\<forall>x\<in>set xs. rejected x st \<Longrightarrow> forEach process_message xs st = Returned st"
  by (induction xs) (simp_all add: rejected_returns)

lemma set_fold_set_add:
  "set (fold (\<lambda>(e, cs). set_add (ident e)) xs acc) = set acc \<union> (\<lambda>(e, cs). ident e) ` set xs"
  by (induction xs arbitrary: acc) (auto simp: set_add_def split: if_splits)

lemma set_found_fold:
  "set (fold (\<lambda>selector found.
             fold (\<lambda>(e, cs). set_add (ident e)) (querySelectorAll selector [document st]) found)
         sels acc) =
   set acc \<union> {ident e |e cs. (e, cs) \<in> set (elems (document st)) \<and> (\<exists>sel\<in>set sels. matches sel e)}"
proof (induction sels arbitrary: acc)
  case Nil
  show ?case by simp
next
  case (Cons a sels)
  show ?case
    unfolding fold_Cons o_apply Cons.IH set_fold_set_add
    by (auto simp: querySelectorAll_def descendants_def)
qed

lemma set_foundMessages:
  "set (foundMessages st) =
   {ident e |e cs. (e, cs) \<in> set (elems (document st)) \<and> (\<exists>sel\<in>set selectors. matches sel e)}"
  unfolding foundMessages_def set_found_fold by simp

lemma foundMessages_in_document: "set (foundMessages st) \<subseteq> set (ids (document st))"
  unfolding set_foundMessages ids_def by force

lemma rescan_returns:
  assumes "wf st" "processMessages st = Returned st'"
  shows "processMessages st' = Returned st'"
proof -
  have inv: "scan_inv st (set (foundMessages st)) st'"
    using scan_inv_forEach [OF scan_inv_initial [OF assms(1)] foundMessages_in_document]
      assms(2) by (simp add: processMessages_def)
  have "rejected z st'" if z: "z \<in> set (foundMessages st')" for z
  proof -
    from z obtain e cs sel where e: "(e, cs) \<in> set (elems (document st'))" "ident e = z"
      "sel \<in> set selectors" "matches sel e"
      unfolding set_foundMessages by blast
    have zin: "z \<in> set (all_ids st')"
      using e(1,2) ids_tree_subset [OF document_in_trees, of st'] by (force simp: ids_def)
    show ?thesis
    proof (cases "z \<in> set (all_ids st)")
      case False
      with inv zin show ?thesis by (auto simp: scan_inv_def)
    next
      case True
      with inv e(1,2) obtain cs0 where "(e, cs0) \<in> set (elems (document st))"
        unfolding scan_inv_def by blast
      with e(2-4) have "z \<in> set (foundMessages st)" unfolding set_foundMessages by blast
      with inv show ?thesis by (auto simp: scan_inv_def)
    qed
  qed
  then show ?thesis
    unfolding processMessages_def by (intro forEach_rejected) blast
qed

lemma forEach_append:
  "forEach f (xs @ ys) st =
     (case forEach f xs st of Returned st1 \<Rightarrow> forEach f ys st1 | Thrown ex st1 \<Rightarrow> Thrown ex st1)"
  by (induction xs arbitrary: st) (auto split: outcome.splits)

lemma forEach_Thrown:
  "forEach f xs st = Thrown ex st' \<Longrightarrow>
   \<exists>pre r post st1. xs = pre @ r # post \<and> forEach f pre st = Returned st1 \<and>
                     f r st1 = Thrown ex st'"
proof (induction xs arbitrary: st)
  case Nil
  then show ?case by simp
next
  case (Cons x xs)
  show ?case
  proof (cases "f x st")
    case (Returned s1)
    with Cons.prems have "forEach f xs s1 = Thrown ex st'" by simp
    from Cons.IH [OF this] obtain pre r post st1 where
      "xs = pre @ r # post" "forEach f pre s1 = Returned st1" "f r st1 = Thrown ex st'" by blast
    then have "x # xs = (x # pre) @ r # post \<and> forEach f (x # pre) st = Returned st1 \<and>
               f r st1 = Thrown ex st'"
      using Returned by simp
    then show ?thesis by blast
  next
    case (Thrown e s1)
    with Cons.prems have "x # xs = [] @ x # xs \<and> forEach f [] st = Returned st \<and>
                          f x st = Thrown ex st'" by simp
    then show ?thesis by blast
  qed
qed

lemma fold_set_add_extends:
  "\<exists>ys. fold (\<lambda>(e, cs). set_add (ident e)) xs acc = acc @ ys"
proof (induction xs arbitrary: acc)
  case Nil
  show ?case by simp
next
  case (Cons x xs)
  obtain e cs where x: "x = (e, cs)" by (cases x)
  from Cons [of "set_add (ident e) acc"] obtain ys where
    "fold (\<lambda>(e, cs). set_add (ident e)) xs (set_add (ident e) acc) = set_add (ident e) acc @ ys"
    by blast
  moreover have "set_add (ident e) acc = acc \<or> set_add (ident e) acc = acc @ [ident e]"
    by (simp add: set_add_def)
  ultimately have "\<exists>zs. fold (\<lambda>(e, cs). set_add (ident e)) xs (set_add (ident e) acc) = acc @ zs"
    by (elim disjE) (simp_all del: fold_simps)
  then show ?case unfolding x by simp
qed

definition found_by :: "selector list \<Rightarrow> state \<Rightarrow> nat list \<Rightarrow> nat list" where
  "found_by sels st acc =
     fold (\<lambda>selector found.
             fold (\<lambda>(e, cs). set_add (ident e)) (querySelectorAll selector [document st]) found)
       sels acc"

lemma foundMessages_found_by: "foundMessages st = found_by selectors st []"
  by (simp add: foundMessages_def found_by_def)

lemma found_by_extends: "\<exists>ys. found_by sels st acc = acc @ ys"
proof (induction sels arbitrary: acc)
  case Nil
  show ?case by (simp add: found_by_def)
next
  case (Cons s sels)
  obtain ys where ys: "fold (\<lambda>(e, cs). set_add (ident e)) (querySelectorAll s [document st]) acc = acc @ ys"
    using fold_set_add_extends by blast
  from Cons [of "acc @ ys"] obtain zs where "found_by sels st (acc @ ys) = (acc @ ys) @ zs" by blast
  then show ?case using ys by (simp add: found_by_def)
qed

lemma found_by_append: "found_by (a @ b) st acc = found_by b st (found_by a st acc)"
  by (simp add: found_by_def)

lemma set_found_by:
  "set (found_by sels st acc) =
   set acc \<union> {ident e |e cs. (e, cs) \<in> set (elems (document st)) \<and> (\<exists>sel\<in>set sels. matches sel e)}"
  unfolding found_by_def by (rule set_found_fold)

text \<open>The document element is the first match of every selector it matches.\<close>

lemma found_root_first:
  assumes wf: "wf st" and doc: "document st = Elem r k"
    and sels: "sels = before @ s # after" and no: "\<forall>sel\<in>set before. \<not> matches sel r"
    and yes: "matches s r"
  shows "\<exists>ys. found_by sels st [] = found_by before st [] @ ident r # ys \<and>
              ident r \<notin> set (found_by before st [])"
proof -
  let ?A = "found_by before st []"
  have d: "distinct (ids (document st))" by (rule wf_tree [OF wf document_in_trees])
  have notin: "ident r \<notin> set ?A"
  proof
    assume "ident r \<in> set ?A"
    then obtain e cs sel where e: "(e, cs) \<in> set (elems (document st))" "ident e = ident r"
      "sel \<in> set before" "matches sel e"
      unfolding set_found_by by auto
    have "(r, k) \<in> set (elems (document st))" by (simp add: doc)
    with e(1,2) d have "e = r"
      unfolding ids_def by (auto simp: distinct_map inj_on_def)
    with e(3,4) no show False by blast
  qed
  have q: "querySelectorAll s [document st] =
           (r, k) # filter (\<lambda>(e, c). matches s e) (descendants k)"
    using yes by (simp add: querySelectorAll_def descendants_def doc)
  obtain ys where ys: "fold (\<lambda>(e, cs). set_add (ident e)) (filter (\<lambda>(e, c). matches s e) (descendants k))
                         (?A @ [ident r]) = (?A @ [ident r]) @ ys"
    using fold_set_add_extends by blast
  have "found_by [s] st ?A = (?A @ [ident r]) @ ys"
    using notin ys by (simp add: found_by_def q set_add_def)
  moreover obtain zs where "found_by after st ((?A @ [ident r]) @ ys) = ((?A @ [ident r]) @ ys) @ zs"
    using found_by_extends by blast
  ultimately have "found_by sels st [] = ?A @ ident r # (ys @ zs)"
    unfolding sels using found_by_append [of before "s # after" st "[]"]
      found_by_append [of "[s]" after st ?A] by simp
  with notin show ?thesis by blast
qed

lemma prefix_before_first:
  assumes "xs = a @ r # ys" "r \<notin> set a" "xs = pre @ r # post"
  shows "set a \<subseteq> set pre"
proof -
  have "takeWhile (\<lambda>x. x \<noteq> r) (a @ r # ys) = a @ takeWhile (\<lambda>x. x \<noteq> r) (r # ys)"
    using assms(2) by (intro takeWhile_append2) auto
  then have "a = takeWhile (\<lambda>x. x \<noteq> r) xs" unfolding assms(1) by simp
  also have "\<dots> = takeWhile (\<lambda>x. x \<noteq> r) (pre @ r # post)" by (simp only: assms(3))
  also have "set \<dots> \<subseteq> set pre"
    by (cases "\<forall>x\<in>set pre. x \<noteq> r") (auto simp: takeWhile_append dest: set_takeWhileD)
  finally show ?thesis .
qed

lemma parentNode_DocumentNode:
  "parentNode m st = DocumentNode \<Longrightarrow> \<exists>r k. document st = Elem r k \<and> ident r = m"
  by (auto simp: parentNode_def split: list.splits node.splits if_splits)

lemma rescan_throws:
  assumes wf: "wf st" and run: "processMessages st = Thrown ex st'"
  shows "processMessages st' = Thrown ex st'"
proof -
  from run have "forEach process_message (foundMessages st) st = Thrown ex st'"
    by (simp add: processMessages_def)
  from forEach_Thrown [OF this] obtain pre r post st1 where
    xs: "foundMessages st = pre @ r # post" and
    pre: "forEach process_message pre st = Returned st1" and
    thr: "process_message r st1 = Thrown ex st'" by blast
  have pre_doc: "set pre \<subseteq> set (ids (document st))"
    using foundMessages_in_document [of st] xs by auto
  have inv: "scan_inv st (set pre) st1"
    using scan_inv_forEach [OF scan_inv_initial [OF wf] pre_doc pre] by simp
  then have wf1: "wf st1" by (simp add: scan_inv_def)
  from process_message_cases [OF wf1, of r] thr
  have st': "st' = st1" and par: "parentNode r st1 = DocumentNode" by auto
  from parentNode_DocumentNode [OF par] obtain re k where
    doc1: "document st1 = Elem re k" and re: "ident re = r" by blast
  from inv doc1 obtain k0 where doc0: "document st = Elem re k0"
    unfolding scan_inv_def by blast
  have d0: "distinct (ids (document st))" by (rule wf_tree [OF wf document_in_trees])
  have "r \<in> set (foundMessages st)" using xs by simp
  then obtain e cs sel where e: "(e, cs) \<in> set (elems (document st))" "ident e = r"
    "sel \<in> set selectors" "matches sel e"
    unfolding set_foundMessages by blast
  have "(re, k0) \<in> set (elems (document st))" by (simp add: doc0)
  with e(1,2) re d0 have "e = re"
    unfolding ids_def by (auto simp: distinct_map inj_on_def)
  with e(3,4) have "\<exists>sel\<in>set selectors. matches sel re" by blast
  from split_list_first_prop [OF this] obtain before s after where
    split: "selectors = before @ s # after" "matches s re" "\<forall>sel\<in>set before. \<not> matches sel re"
    by blast
  from found_root_first [OF wf doc0 split(1,3,2)] obtain ys0 where
    f0: "foundMessages st = found_by before st [] @ r # ys0" "r \<notin> set (found_by before st [])"
    unfolding foundMessages_found_by re by blast
  from found_root_first [OF wf1 doc1 split(1,3,2)] obtain ys1 where
    f1: "foundMessages st1 = found_by before st1 [] @ r # ys1"
    unfolding foundMessages_found_by re by blast
  have A0: "set (found_by before st []) \<subseteq> set pre"
    by (rule prefix_before_first [OF f0 xs])
  have rej: "rejected z st1" if z: "z \<in> set (found_by before st1 [])" for z
  proof -
    from z obtain e cs sel where e: "(e, cs) \<in> set (elems (document st1))" "ident e = z"
      "sel \<in> set before" "matches sel e"
      unfolding set_found_by by auto
    have zin: "z \<in> set (all_ids st1)"
      using e(1,2) ids_tree_subset [OF document_in_trees, of st1] by (force simp: ids_def)
    show ?thesis
    proof (cases "z \<in> set (all_ids st)")
      case False
      with inv zin show ?thesis by (auto simp: scan_inv_def)
    next
      case True
      with inv e(1,2) obtain cs0 where "(e, cs0) \<in> set (elems (document st))"
        unfolding scan_inv_def by blast
      with e(2-4) have "z \<in> set (found_by before st [])" unfolding set_found_by by blast
      with A0 have "z \<in> set pre" by blast
      with inv show ?thesis by (auto simp: scan_inv_def)
    qed
  qed
  have "forEach process_message (found_by before st1 []) st1 = Returned st1"
    by (rule forEach_rejected) (simp add: rej)
  then have "processMessages st1 = Thrown ex st'"
    unfolding processMessages_def f1 forEach_append using thr by simp
  then show ?thesis by (simp add: st')
qed

lemma document_element_throws:
  "processMessages prose_root_page = Thrown HierarchyRequestError prose_root_page"
  by code_simp

text \<open>
  Claim C2: the scan is idempotent.  On every page with unique element identities, running
  \<open>processMessages\<close> again on the page the first run left behind gives the same outcome and
  the same page: no wrapper is added and nothing inside or outside the existing wrappers
  changes.  (This covers a first run that ends in an exception as well: the second run then
  ends in the same exception, on the same page.)
\<close>

theorem C2_scan_idempotent:
  assumes "wf st"
  shows "processMessages (page (processMessages st)) = processMessages st"
proof (cases "processMessages st")
  case (Returned st')
  with rescan_returns [OF assms Returned] show ?thesis by simp
next
  case (Thrown ex st')
  with rescan_throws [OF assms Thrown] show ?thesis by simp
qed

theorem C2_scan_idempotent_witness:
  "wf example_page \<and>
   length (querySelectorAll wrapperSel [document example_page]) = 0 \<and>
   length (querySelectorAll wrapperSel [document (page (processMessages example_page))]) = 1 \<and>
   processMessages (page (processMessages example_page)) = processMessages example_page"
proof -
  have w: "wf example_page" by code_simp
  have a: "length (querySelectorAll wrapperSel [document example_page]) = 0" by code_simp
  have b: "length (querySelectorAll wrapperSel [document (page (processMessages example_page))]) = 1"
    by code_simp
  from C2_scan_idempotent [OF w] w a b show ?thesis by (intro conjI)
qed

section \<open>Changes of element data\<close>

fun map_data :: "(edata \<Rightarrow> edata) \<Rightarrow> node \<Rightarrow> node" where
  "map_data h (Text s) = Text s"
| "map_data h (Elem e cs) = Elem (h e) (map (map_data h) cs)"

















section \<open>Collapsing and expanding\<close>

definition is_collapsed :: "edata \<Rightarrow> bool" where
  "is_collapsed e = (''collapsed'' \<in> set (classes e))"

definition aria_expanded :: "edata \<Rightarrow> string option" where
  "aria_expanded e = getAttribute ''aria-expanded'' e"


definition set_class :: "bool \<Rightarrow> edata \<Rightarrow> edata" where
  "set_class b = (if b then classList_add ''collapsed'' else classList_remove ''collapsed'')"





lemma setAttribute_simps [simp]:
  "ident (setAttribute k v e) = ident e" "tag (setAttribute k v e) = tag e"
  "classes (setAttribute k v e) = classes e"
  by (simp_all add: setAttribute_def)

lemma set_class_simps [simp]:
  "ident (set_class b e) = ident e" "tag (set_class b e) = tag e"
  "attrs (set_class b e) = attrs e"
  by (simp_all add: set_class_def classList_add_def classList_remove_def)

lemma set_class_classes:
  "c \<in> set (classes (set_class b e)) \<longleftrightarrow> (if c = ''collapsed'' then b else c \<in> set (classes e))"
  by (auto simp: set_class_def classList_add_def classList_remove_def)

lemma is_collapsed_set_class [simp]: "is_collapsed (set_class b e) = b"
  by (simp add: is_collapsed_def set_class_classes)

lemma is_collapsed_setAttribute [simp]: "is_collapsed (setAttribute k v e) = is_collapsed e"
  by (simp add: is_collapsed_def)

lemma aria_expanded_set_class [simp]: "aria_expanded (set_class b e) = aria_expanded e"
  by (simp add: aria_expanded_def getAttribute_def)

lemma getAttribute_set_class [simp]: "getAttribute k (set_class b e) = getAttribute k e"
  by (simp add: getAttribute_def)
















text \<open>The two elements of a wrapper that the global toggle switches.\<close>

definition wrapper_parts :: "node list \<Rightarrow> (edata \<times> edata) option" where
  "wrapper_parts wcs =
     (case querySelector contentSel wcs of
        None \<Rightarrow> None
      | Some (content, ccs) \<Rightarrow>
          (case querySelector toggleSel wcs of
             None \<Rightarrow> None
           | Some (toggle, tcs) \<Rightarrow> Some (content, toggle)))"

definition parts_of :: "nat \<Rightarrow> state \<Rightarrow> (edata \<times> edata) option" where
  "parts_of w st = (case subtree w st of None \<Rightarrow> None | Some (e, wcs) \<Rightarrow> wrapper_parts wcs)"









section \<open>The element structure of a page\<close>

text \<open>
  Queries look at elements only.  \<open>skeleton\<close> drops the text nodes of a tree; assigning the
  text of an element that has no element children leaves the skeleton as it is.
\<close>

definition is_element :: "node \<Rightarrow> bool" where
  "is_element n = (case n of Elem e cs \<Rightarrow> True | Text s \<Rightarrow> False)"

fun skeleton :: "node \<Rightarrow> node" where
  "skeleton (Text s) = Text []"
| "skeleton (Elem e cs) = Elem e (map skeleton (filter is_element cs))"

definition kids :: "node list \<Rightarrow> node list" where
  "kids cs = map skeleton (filter is_element cs)"

definition sk :: "state \<Rightarrow> state" where
  "sk st = map_trees skeleton st"

lemma concat_elems_filter: "concat (map elems (filter is_element cs)) = concat (map elems cs)"
  by (induction cs) (auto simp: is_element_def split: node.splits)

lemma elems_skeleton: "elems (skeleton t) = map (\<lambda>(e, cs). (e, kids cs)) (elems t)"
proof (induction t)
  case (Text s)
  show ?case by simp
next
  case (Elem e cs)
  have "concat (map (elems \<circ> skeleton) (filter is_element cs)) =
        concat (map (\<lambda>c. map (\<lambda>(e, cs). (e, kids cs)) (elems c)) (filter is_element cs))"
    using Elem.IH by (auto intro!: arg_cong [where f = concat])
  also have "\<dots> = map (\<lambda>(e, cs). (e, kids cs)) (concat (map elems (filter is_element cs)))"
    by (simp add: map_concat comp_def)
  finally show ?case
    by (simp add: kids_def concat_elems_filter)
qed

lemma descendants_kids: "descendants (kids cs) = map (\<lambda>(e, cs). (e, kids cs)) (descendants cs)"
proof -
  have "descendants (kids cs) =
        concat (map (\<lambda>c. map (\<lambda>(e, cs). (e, kids cs)) (elems c)) (filter is_element cs))"
    by (simp add: descendants_def kids_def comp_def elems_skeleton)
  also have "\<dots> = map (\<lambda>(e, cs). (e, kids cs)) (concat (map elems (filter is_element cs)))"
    by (simp add: map_concat comp_def)
  finally show ?thesis by (simp add: concat_elems_filter descendants_def)
qed





lemma skeleton_map_data: "skeleton (map_data h t) = map_data h (skeleton t)"
proof (induction t)
  case (Text s)
  show ?case by simp
next
  case (Elem e cs)
  have f: "filter is_element (map (map_data h) cs) = map (map_data h) (filter is_element cs)"
    by (induction cs) (auto simp: is_element_def split: node.splits)
  show ?case using Elem.IH by (simp add: f)
qed

lemma sk_map_data: "sk (map_trees (map_data h) st) = map_trees (map_data h) (sk st)"
  by (simp add: sk_def map_trees_def skeleton_map_data)


lemma filter_map_snd:
  "filter (\<lambda>(e, c). P e) (map (\<lambda>(e, cs). (e, g cs)) xs) =
   map (\<lambda>(e, cs). (e, g cs)) (filter (\<lambda>(e, c). P e) xs)"
  by (induction xs) auto


lemma querySelectorAll_kids:
  "querySelectorAll sel (kids cs) = map (\<lambda>(e, cs). (e, kids cs)) (querySelectorAll sel cs)"
  unfolding querySelectorAll_def descendants_kids by (rule filter_map_snd)








section \<open>The global toggle as one change of the page\<close>

definition button_span :: "state \<Rightarrow> (edata \<times> node list) option" where
  "button_span st =
     (case getElementById ''collapse-all-btn'' st of
        None \<Rightarrow> None
      | Some (b, bcs) \<Rightarrow> querySelector [[TagIs ''span'']] bcs)"

definition button_svg :: "state \<Rightarrow> (edata \<times> node list) option" where
  "button_svg st =
     (case getElementById ''collapse-all-btn'' st of
        None \<Rightarrow> None
      | Some (b, bcs) \<Rightarrow> querySelector [[TagIs ''svg'']] bcs)"

text \<open>The label of the button the script creates is a \<open>span\<close> that holds text only.\<close>

definition label_is_text :: "state \<Rightarrow> bool" where
  "label_is_text st = (case button_span st of None \<Rightarrow> True | Some (s, scs) \<Rightarrow> descendants scs = [])"

definition relabel :: "bool \<Rightarrow> state \<Rightarrow> state" where
  "relabel b st =
     (case button_span st of
        None \<Rightarrow> st
      | Some (s, scs) \<Rightarrow> setTextContent (ident s) (button_label b) st)"


lemma trees_flag [simp]: "trees (st\<lparr>isAllCollapsed := b\<rparr>) = trees st"
  by (simp add: trees_def)

lemma wf_flag [simp]: "wf (st\<lparr>isAllCollapsed := b\<rparr>) = wf st"
  by (simp add: wf_def all_ids_def)

lemma subtree_flag [simp]: "subtree i (st\<lparr>isAllCollapsed := b\<rparr>) = subtree i st"
  by (simp add: subtree_def)

lemma parts_of_flag [simp]: "parts_of w (st\<lparr>isAllCollapsed := b\<rparr>) = parts_of w st"
  by (simp add: parts_of_def)

lemma getElementById_flag [simp]:
  "getElementById i (st\<lparr>isAllCollapsed := b\<rparr>) = getElementById i st"
  by (simp add: getElementById_def)

lemma button_span_flag [simp]: "button_span (st\<lparr>isAllCollapsed := b\<rparr>) = button_span st"
  by (simp add: button_span_def)

lemma button_svg_flag [simp]: "button_svg (st\<lparr>isAllCollapsed := b\<rparr>) = button_svg st"
  by (simp add: button_svg_def)

lemma label_is_text_flag [simp]: "label_is_text (st\<lparr>isAllCollapsed := b\<rparr>) = label_is_text st"
  by (simp add: label_is_text_def)

lemma isAllCollapsed_map_trees [simp]: "isAllCollapsed (map_trees f st) = isAllCollapsed st"
  by (simp add: map_trees_def)

lemma document_map_trees [simp]: "document (map_trees f st) = f (document st)"
  by (simp add: map_trees_def)


lemma descendants_in_elems: "set (descendants cs) \<subseteq> set (elems (Elem e cs))"
  by (auto simp: descendants_def)

lemma query_in_page:
  assumes "(b, bcs) \<in> set (descendants (trees st))" "querySelector sel bcs = Some (s, scs)"
  shows "(s, scs) \<in> set (descendants (trees st))"
proof -
  obtain t where t: "t \<in> set (trees st)" "(b, bcs) \<in> set (elems t)"
    using assms(1) by (auto simp: descendants_trees)
  have "(s, scs) \<in> set (descendants bcs)"
    using assms(2) by (auto simp: querySelector_def dest!: find_Some_mem)
  then have "(s, scs) \<in> set (elems t)"
    using elems_trans [OF t(2)] descendants_in_elems [of bcs b] by blast
  with t(1) show ?thesis by (auto simp: descendants_trees)
qed


lemma button_svg_mem:
  assumes "button_svg st = Some (s, scs)"
  shows "(s, scs) \<in> set (descendants (trees st))"
proof -
  from assms obtain b bcs where
    b: "querySelector [[AttrIs ''id'' ''collapse-all-btn'']] [document st] = Some (b, bcs)"
    and q: "querySelector [[TagIs ''svg'']] bcs = Some (s, scs)"
    unfolding button_svg_def getElementById_def by (cases "querySelector [[AttrIs ''id'' ''collapse-all-btn'']] [document st]") auto
  show ?thesis by (rule query_in_page [OF querySelector_document [OF b] q])
qed













section \<open>What the global toggle leaves behind\<close>

text \<open>
  The wrappers of the document, each with the two elements the toggles act on: the first
  \<open>.message-content\<close> and the first \<open>.collapse-toggle\<close> below it, when both exist.
\<close>

definition wrappers :: "state \<Rightarrow> (edata \<times> (edata \<times> edata) option) list" where
  "wrappers st =
     map (\<lambda>(w, wcs). (w, wrapper_parts wcs)) (querySelectorAll wrapperSel [document st])"




lemma document_sk [simp]: "document (sk st) = skeleton (document st)"
  by (simp add: sk_def)



lemma wrappers_flag [simp]: "wrappers (st\<lparr>isAllCollapsed := b\<rparr>) = wrappers st"
  by (simp add: wrappers_def)















lemma isAllCollapsed_relabel [simp]: "isAllCollapsed (relabel b st) = isAllCollapsed st"
  by (simp add: relabel_def setTextContent_def update_def split: option.splits)









end
